theory Spec2Isabelle
  imports Complex_Main "HOL-Library.Word"
begin

unbundle bit_operations_syntax

section \<open>Machine types\<close>

type_synonym u8 = "8 word"
type_synonym u32 = "32 word"
type_synonym u64 = "64 word"
type_synonym bytes = "u8 list"

text \<open>
  \<^verbatim>\<open>std::vector::resize(n, v)\<close>: the first \<open>n\<close> elements are kept, new elements are
  copies of \<open>v\<close>.
\<close>

definition resize :: "'a list \<Rightarrow> nat \<Rightarrow> 'a \<Rightarrow> 'a list" where
  "resize xs n v = take n xs @ replicate (n - length xs) v"

section \<open>The state cache (emulator-libretro.cc, struct StateCache)\<close>

text \<open>
  \<^verbatim>\<open>Key = pair<uint8_t, const vector<uint8_t>*>\<close> with \<^verbatim>\<open>KeyEquals\<close> comparing the input byte
  and the pointed-to bytes, so a key is the input byte and the pre-state bytes.
  \<^verbatim>\<open>Value = pair<uint64_t, vector<uint8_t>*>\<close> is the sequence number and the post-state
  bytes. The \<^verbatim>\<open>unordered_map\<close> is a list of entries with pairwise different keys; its
  iteration order is the list order, and no operation below depends on it
  (\<^verbatim>\<open>MaybeGC\<close> sorts what it collects).
\<close>

type_synonym Key = "u8 \<times> bytes"
type_synonym Value = "u64 \<times> bytes"

record StateCache =
  table :: "(Key \<times> Value) list"
  limit :: u64
  count :: u64
  next_seq :: u64
  slop :: u64
  hits :: u64
  misses :: u64

text \<open>The member initialisers of the struct.\<close>

definition StateCache_new :: StateCache where
  "StateCache_new =
     \<lparr>table = [], limit = 0, count = 0, next_seq = 0, slop = 10000, hits = 0, misses = 0\<rparr>"

definition Resize :: "u64 \<Rightarrow> u64 \<Rightarrow> StateCache \<Rightarrow> StateCache" where
  "Resize ll ss c = c\<lparr>table := [], limit := ll, slop := ss, next_seq := 0, count := 0\<rparr>"

text \<open>
  \<^verbatim>\<open>unordered_map::emplace\<close> inserts only when no entry with an equal key exists;
  otherwise the table is left as it was.
\<close>

definition emplace :: "Key \<Rightarrow> Value \<Rightarrow> (Key \<times> Value) list \<Rightarrow> (Key \<times> Value) list" where
  "emplace k v t = (case map_of t k of None \<Rightarrow> t @ [(k, v)] | Some _ \<Rightarrow> t)"

text \<open>
  The erase loop of \<^verbatim>\<open>MaybeGC\<close>: each entry whose sequence number is below
  \<open>min_seq\<close> is erased and \<open>count\<close> decremented; the others are kept.
\<close>

fun sweep :: "u64 \<Rightarrow> (Key \<times> Value) list \<Rightarrow> u64 \<Rightarrow> (Key \<times> Value) list \<times> u64" where
  "sweep min_seq [] cnt = ([], cnt)"
| "sweep min_seq (e # es) cnt =
     (if fst (snd e) < min_seq then sweep min_seq es (cnt - 1)
      else (case sweep min_seq es cnt of (kept, cnt') \<Rightarrow> (e # kept, cnt')))"

text \<open>
  \<^verbatim>\<open>MaybeGC\<close>. \<^verbatim>\<open>seqs[num_remove]\<close> is an unchecked \<^verbatim>\<open>std::vector\<close> subscript: reading
  at or past \<^verbatim>\<open>seqs.size()\<close> is undefined behaviour, which is the result \<open>None\<close>.
  \<open>limit + slop\<close> and \<open>count - limit\<close> are 64-bit unsigned and wrap.
\<close>

definition MaybeGC :: "StateCache \<Rightarrow> StateCache option" where
  "MaybeGC c =
     (if count c \<le> limit c + slop c then Some c
      else
        let seqs = sort (map (\<lambda>(k, v). fst v) (table c));
            num_remove = count c - limit c
        in if unat num_remove < length seqs
           then (case sweep (seqs ! unat num_remove) (table c) (count c) of
                   (kept, cnt) \<Rightarrow> Some (c\<lparr>table := kept, count := cnt\<rparr>))
           else None)"

text \<open>
  \<^verbatim>\<open>Remember\<close>: the arguments of \<^verbatim>\<open>emplace\<close> are evaluated, so \<open>next_seq\<close> is
  incremented, whether or not the entry is inserted; \<open>count\<close> is incremented next.
\<close>

definition Remember :: "u8 \<Rightarrow> bytes \<Rightarrow> bytes \<Rightarrow> StateCache \<Rightarrow> StateCache option" where
  "Remember input start result c =
     MaybeGC (c\<lparr>table := emplace (input, start) (next_seq c, result) (table c),
                next_seq := next_seq c + 1,
                count := count c + 1\<rparr>)"

text \<open>The assignment \<^verbatim>\<open>it->second.first = next_seq++\<close> on the entry found.\<close>

definition restamp :: "Key \<Rightarrow> u64 \<Rightarrow> (Key \<times> Value) list \<Rightarrow> (Key \<times> Value) list" where
  "restamp k s t = map (\<lambda>(k', v). if k' = k then (k', (s, snd v)) else (k', v)) t"

definition GetKnown :: "u8 \<Rightarrow> bytes \<Rightarrow> StateCache \<Rightarrow> bytes option \<times> StateCache" where
  "GetKnown input start c =
     (case map_of (table c) (input, start) of
        None \<Rightarrow> (None, c\<lparr>misses := misses c + 1\<rparr>)
      | Some v \<Rightarrow>
          (Some (snd v),
           c\<lparr>hits := hits c + 1,
             table := restamp (input, start) (next_seq c) (table c),
             next_seq := next_seq c + 1\<rparr>))"

section \<open>The libretro core and its wrapper (libretro-wrapper.cc)\<close>

text \<open>
  The core is a shared object loaded at run time, so it is a parameter: a record of the
  entry points the wrapper calls, over the core's machine state \<open>'c\<close>.
  \<^item> \<open>fn_run\<close> advances one frame; the core reads the pads through the input-state
    callback, which answers from \<^verbatim>\<open>input_state[2]\<close>, and it calls the video-refresh
    callback for each frame it presents;
  \<^item> \<open>fn_serialize c n\<close> is the content of an \<open>n\<close>-byte buffer after a successful
    \<^verbatim>\<open>retro_serialize\<close>, and \<open>None\<close> when the core reports failure;
  \<^item> \<open>fn_unserialize\<close> returns the core's verdict and its state afterwards;
  \<^item> \<open>fn_get_memory_data\<close> is the system RAM region (\<open>None\<close> for a null pointer).
  The audio path (\<^verbatim>\<open>g_audio_samples\<close>) is left out: nothing below reads it.
\<close>

record retro_frame =
  frame_data :: "(nat \<Rightarrow> u8) option"
  frame_width :: u32
  frame_height :: u32
  frame_pitch :: u64

record 'c retro_core =
  fn_run :: "u8 list \<Rightarrow> 'c \<Rightarrow> 'c \<times> retro_frame list"
  fn_serialize_size :: "'c \<Rightarrow> nat"
  fn_serialize :: "'c \<Rightarrow> nat \<Rightarrow> bytes option"
  fn_unserialize :: "bytes \<Rightarrow> 'c \<Rightarrow> bool \<times> 'c"
  fn_get_memory_data :: "'c \<Rightarrow> bytes option"
  fn_get_memory_size :: "'c \<Rightarrow> nat"

record FrameBuffer =
  data :: bytes
  width :: u32
  height :: u32
  pitch :: u32

record 'c LibretroWrapper =
  core :: 'c
  rom_loaded :: bool
  input_state :: "u8 list"

definition SetInput :: "nat \<Rightarrow> u8 \<Rightarrow> 'c LibretroWrapper \<Rightarrow> 'c LibretroWrapper" where
  "SetInput port input w =
     (if port < 2 then w\<lparr>input_state := (input_state w)[port := input]\<rparr> else w)"

text \<open>
  \<^verbatim>\<open>VideoRefreshCallback\<close>: the user callback runs only for a frame with data; the view
  it gets is \<^verbatim>\<open>span(data, height * pitch)\<close>, the pitch narrowed to \<^verbatim>\<open>unsigned\<close>.
\<close>

definition VideoRefreshCallback ::
  "(FrameBuffer \<Rightarrow> bytes \<Rightarrow> bytes) \<Rightarrow> retro_frame \<Rightarrow> bytes \<Rightarrow> bytes" where
  "VideoRefreshCallback video_cb fr rgba =
     (case frame_data fr of
        None \<Rightarrow> rgba
      | Some mem \<Rightarrow>
          video_cb
            \<lparr>data = map mem [0..<unat (ucast (frame_height fr) * frame_pitch fr :: u64)],
             width = frame_width fr, height = frame_height fr,
             pitch = ucast (frame_pitch fr)\<rparr> rgba)"

definition Run ::
  "'c retro_core \<Rightarrow> (FrameBuffer \<Rightarrow> bytes \<Rightarrow> bytes) \<Rightarrow> 'c LibretroWrapper \<Rightarrow> bytes
     \<Rightarrow> 'c LibretroWrapper \<times> bytes" where
  "Run K video_cb w rgba =
     (if \<not> rom_loaded w then (w, rgba)
      else (case fn_run K (input_state w) (core w) of
              (c', frames) \<Rightarrow> (w\<lparr>core := c'\<rparr>, fold (VideoRefreshCallback video_cb) frames rgba)))"

definition GetRAM :: "'c retro_core \<Rightarrow> 'c LibretroWrapper \<Rightarrow> bytes" where
  "GetRAM K w =
     (if \<not> rom_loaded w then []
      else (case fn_get_memory_data K (core w) of
              None \<Rightarrow> []
            | Some d \<Rightarrow>
                (let size = fn_get_memory_size K (core w)
                 in if size = 0 then [] else take size d)))"

definition GetStateSize :: "'c retro_core \<Rightarrow> 'c LibretroWrapper \<Rightarrow> nat" where
  "GetStateSize K w = (if \<not> rom_loaded w then 0 else fn_serialize_size K (core w))"

definition SaveState :: "'c retro_core \<Rightarrow> 'c LibretroWrapper \<Rightarrow> bytes \<Rightarrow> bool \<times> bytes" where
  "SaveState K w buffer =
     (if \<not> rom_loaded w then (False, buffer)
      else if length buffer < GetStateSize K w then (False, buffer)
      else (case fn_serialize K (core w) (length buffer) of
              None \<Rightarrow> (False, buffer)
            | Some bs \<Rightarrow> (True, bs)))"

definition LoadState ::
  "'c retro_core \<Rightarrow> 'c LibretroWrapper \<Rightarrow> bytes \<Rightarrow> bool \<times> 'c LibretroWrapper" where
  "LoadState K w buffer =
     (if \<not> rom_loaded w then (False, w)
      else (case fn_unserialize K buffer (core w) of (ok, c') \<Rightarrow> (ok, w\<lparr>core := c'\<rparr>)))"

section \<open>The emulator frontend (emulator-libretro.cc)\<close>

text \<open>The file's static variables; a null \<^verbatim>\<open>unique_ptr\<close> is \<open>None\<close>.\<close>

record 'c emu =
  g_wrapper :: "'c LibretroWrapper option"
  g_initialized :: bool
  g_frame_rgba :: bytes
  g_cache :: "StateCache option"

definition emu_start :: "'c emu" where
  "emu_start = \<lparr>g_wrapper = None, g_initialized = False, g_frame_rgba = [], g_cache = None\<rparr>"

text \<open>
  The video callback \<^verbatim>\<open>Initialize\<close> installs. \<open>y\<close>, \<open>x\<close> and the pitch are \<^verbatim>\<open>unsigned\<close>,
  so the source offset is computed modulo \<open>2 ^ 32\<close> before it widens to \<^verbatim>\<open>size_t\<close>.
\<close>

definition put_pixel :: "FrameBuffer \<Rightarrow> nat \<Rightarrow> nat \<Rightarrow> bytes \<Rightarrow> bytes" where
  "put_pixel fb y x rgba =
     (let src_offset = unat (of_nat y * pitch fb + of_nat x * 4 :: u32);
          dst_offset = y * 256 * 4 + x * 4
      in if src_offset + 3 < length (data fb)
         then rgba[dst_offset + 0 := data fb ! (src_offset + 2),
                   dst_offset + 1 := data fb ! (src_offset + 1),
                   dst_offset + 2 := data fb ! (src_offset + 0),
                   dst_offset + 3 := 0xFF]
         else rgba)"

definition video_callback :: "FrameBuffer \<Rightarrow> bytes \<Rightarrow> bytes" where
  "video_callback fb rgba =
     fold (\<lambda>y. fold (\<lambda>x. put_pixel fb y x) [0..<min (unat (width fb)) 256])
       [0..<min (unat (height fb)) 256]
       (resize rgba (256 * 256 * 4) 0)"

text \<open>
  \<^verbatim>\<open>Initialize(core_path, rom_path)\<close>. Loading the shared object and the ROM is outside
  the program: \<open>loaded\<close> is the core's state after \<^verbatim>\<open>LoadCore\<close> and \<^verbatim>\<open>LoadROM\<close> both
  returned \<^verbatim>\<open>OK\<close>, and \<open>None\<close> when one of them failed. The failure paths reset
  \<^verbatim>\<open>g_wrapper\<close> only.
\<close>

definition Initialize :: "'c option \<Rightarrow> 'c emu \<Rightarrow> bool \<times> 'c emu" where
  "Initialize loaded e =
     (if g_initialized e then (False, e)
      else (case loaded of
              None \<Rightarrow> (False, e\<lparr>g_wrapper := None, g_cache := Some StateCache_new\<rparr>)
            | Some c \<Rightarrow>
                (True, e\<lparr>g_wrapper := Some \<lparr>core = c, rom_loaded = True, input_state = [0, 0]\<rparr>,
                         g_cache := Some StateCache_new,
                         g_initialized := True\<rparr>)))"

definition Shutdown :: "'c emu \<Rightarrow> 'c emu" where
  "Shutdown e = e\<lparr>g_wrapper := None, g_cache := None, g_frame_rgba := [], g_initialized := False\<rparr>"

definition Step :: "'c retro_core \<Rightarrow> u8 \<Rightarrow> 'c emu \<Rightarrow> 'c emu" where
  "Step K inputs e =
     (case g_wrapper e of
        None \<Rightarrow> e
      | Some w \<Rightarrow>
          (case Run K video_callback (SetInput 0 inputs w) (g_frame_rgba e) of
             (w', rgba) \<Rightarrow> e\<lparr>g_wrapper := Some w', g_frame_rgba := rgba\<rparr>))"

definition StepFull :: "'c retro_core \<Rightarrow> u8 \<Rightarrow> 'c emu \<Rightarrow> 'c emu" where
  "StepFull K inputs e = Step K inputs e"

definition GetMemory :: "'c retro_core \<Rightarrow> 'c emu \<Rightarrow> bytes" where
  "GetMemory K e = (case g_wrapper e of None \<Rightarrow> [] | Some w \<Rightarrow> GetRAM K w)"

definition GetImage :: "'c emu \<Rightarrow> bytes" where
  "GetImage e = g_frame_rgba e"

text \<open>\<^verbatim>\<open>CityHash64\<close> is a library function: the parameter \<open>city\<close>.\<close>

definition RamChecksum :: "'c retro_core \<Rightarrow> (bytes \<Rightarrow> u64) \<Rightarrow> 'c emu \<Rightarrow> u64" where
  "RamChecksum K city e =
     (case g_wrapper e of
        None \<Rightarrow> 0
      | Some w \<Rightarrow> (let ram = GetRAM K w in if ram = [] then 0 else city ram))"

text \<open>
  \<^verbatim>\<open>SaveUncompressed(out)\<close>: \<open>out\<close> is the vector's content at the call, which
  \<^verbatim>\<open>resize\<close> keeps; the result is its content afterwards.
\<close>

definition SaveUncompressed :: "'c retro_core \<Rightarrow> 'c emu \<Rightarrow> bytes \<Rightarrow> bytes" where
  "SaveUncompressed K e out =
     (case g_wrapper e of
        None \<Rightarrow> []
      | Some w \<Rightarrow> snd (SaveState K w (resize out (GetStateSize K w) 0)))"

definition LoadUncompressed :: "'c retro_core \<Rightarrow> bytes \<Rightarrow> 'c emu \<Rightarrow> 'c emu" where
  "LoadUncompressed K inp e =
     (case g_wrapper e of
        None \<Rightarrow> e
      | Some w \<Rightarrow> if inp = [] then e else e\<lparr>g_wrapper := Some (snd (LoadState K w inp))\<rparr>)"

definition GetBasis :: "'c retro_core \<Rightarrow> 'c emu \<Rightarrow> bytes \<Rightarrow> bytes" where
  "GetBasis K e out = SaveUncompressed K e out"

definition ResetCache :: "u64 \<Rightarrow> u64 \<Rightarrow> 'c emu \<Rightarrow> 'c emu" where
  "ResetCache numstates slp e =
     (case g_cache e of None \<Rightarrow> e | Some c \<Rightarrow> e\<lparr>g_cache := Some (Resize numstates slp c)\<rparr>)"

text \<open>
  \<^verbatim>\<open>CachingStep\<close>. \<open>None\<close> is the undefined behaviour \<^verbatim>\<open>Remember\<close> can reach in
  \<^verbatim>\<open>MaybeGC\<close>.
\<close>

definition CachingStep :: "'c retro_core \<Rightarrow> u8 \<Rightarrow> 'c emu \<Rightarrow> 'c emu option" where
  "CachingStep K input e =
     (case g_cache e of
        None \<Rightarrow> Some (Step K input e)
      | Some c \<Rightarrow>
          (let start = SaveUncompressed K e []
           in case GetKnown input start c of
                (Some cached, c') \<Rightarrow> Some (LoadUncompressed K cached (e\<lparr>g_cache := Some c'\<rparr>))
              | (None, c') \<Rightarrow>
                  (let e1 = Step K input (e\<lparr>g_cache := Some c'\<rparr>);
                       result = SaveUncompressed K e1 []
                   in case Remember input start result c' of
                        None \<Rightarrow> None
                      | Some c'' \<Rightarrow> Some (e1\<lparr>g_cache := Some c''\<rparr>))))"

text \<open>\<^verbatim>\<open>PrintCacheStats\<close> prints one line of five numbers when a cache exists.\<close>

definition PrintCacheStats :: "'c emu \<Rightarrow> (u64 \<times> u64 \<times> u64 \<times> u64 \<times> u64) list" where
  "PrintCacheStats e =
     (case g_cache e of
        None \<Rightarrow> []
      | Some c \<Rightarrow> [(count c, limit c, next_seq c, hits c, misses c)])"

text \<open>A sequence of inputs through \<open>CachingStep\<close>, as the loops of the callers run it.\<close>

fun caching_steps :: "'c retro_core \<Rightarrow> u8 list \<Rightarrow> 'c emu \<Rightarrow> 'c emu option" where
  "caching_steps K [] e = Some e"
| "caching_steps K (b # bs) e =
     (case CachingStep K b e of None \<Rightarrow> None | Some e' \<Rightarrow> caching_steps K bs e')"

section \<open>Compressed state I/O (emulator-libretro.cc, SaveEx and LoadEx)\<close>

text \<open>
  zlib is a library: \<open>compress2 Z x\<close> is the payload \<^verbatim>\<open>compress2\<close> writes into a buffer of
  \<^verbatim>\<open>compressBound\<close> bytes, \<open>uncompress Z n z\<close> the bytes \<^verbatim>\<open>uncompress\<close> writes into a buffer
  of \<open>n\<close> bytes (as many as \<^verbatim>\<open>actual_len\<close> reports); \<open>None\<close> is a result other than
  \<^verbatim>\<open>Z_OK\<close>, on which the program aborts.
\<close>

record zlib =
  compress2 :: "bytes \<Rightarrow> bytes option"
  uncompress :: "nat \<Rightarrow> bytes \<Rightarrow> bytes option"

text \<open>
  The header \<^verbatim>\<open>*reinterpret_cast<uint32_t*>(out->data()) = raw.size()\<close>: the size
  narrowed to 32 bits, stored least significant byte first.
\<close>

definition put_u32 :: "nat \<Rightarrow> bytes" where
  "put_u32 n =
     (let w = (of_nat n :: u32)
      in [ucast w, ucast (drop_bit 8 w), ucast (drop_bit 16 w), ucast (drop_bit 24 w)])"

definition get_u32 :: "bytes \<Rightarrow> u32" where
  "get_u32 bs =
     ucast (bs ! 0) OR push_bit 8 (ucast (bs ! 1)) OR push_bit 16 (ucast (bs ! 2)) OR
     push_bit 24 (ucast (bs ! 3))"

text \<open>The two loops over the first \<open>min(|basis|, |raw|)\<close> bytes; a null basis is \<open>None\<close>.\<close>

definition sub_basis :: "bytes \<Rightarrow> bytes option \<Rightarrow> bytes" where
  "sub_basis raw basis =
     (case basis of
        None \<Rightarrow> raw
      | Some B \<Rightarrow> fold (\<lambda>i r. r[i := r ! i - B ! i]) [0..<min (length B) (length raw)] raw)"

definition add_basis :: "bytes \<Rightarrow> bytes option \<Rightarrow> bytes" where
  "add_basis uncompressed basis =
     (case basis of
        None \<Rightarrow> uncompressed
      | Some B \<Rightarrow>
          fold (\<lambda>i r. r[i := r ! i + B ! i]) [0..<min (length B) (length uncompressed)]
            uncompressed)"

definition SaveEx :: "zlib \<Rightarrow> 'c retro_core \<Rightarrow> 'c emu \<Rightarrow> bytes option \<Rightarrow> bytes option" where
  "SaveEx Z K e basis =
     (let raw = sub_basis (SaveUncompressed K e []) basis
      in case compress2 Z raw of
           None \<Rightarrow> None
         | Some z \<Rightarrow> Some (put_u32 (length raw) @ z))"

definition LoadEx ::
  "zlib \<Rightarrow> 'c retro_core \<Rightarrow> bytes \<Rightarrow> bytes option \<Rightarrow> 'c emu \<Rightarrow> 'c emu option" where
  "LoadEx Z K inp basis e =
     (if length inp < 4 then Some e
      else
        let uncomprlen = unat (get_u32 inp)
        in case uncompress Z uncomprlen (drop 4 inp) of
             None \<Rightarrow> None
           | Some uncompressed \<Rightarrow> Some (LoadUncompressed K (add_basis uncompressed basis) e))"

definition Save :: "zlib \<Rightarrow> 'c retro_core \<Rightarrow> 'c emu \<Rightarrow> bytes option" where
  "Save Z K e = SaveEx Z K e None"

definition Load :: "zlib \<Rightarrow> 'c retro_core \<Rightarrow> bytes \<Rightarrow> 'c emu \<Rightarrow> 'c emu option" where
  "Load Z K inp e = LoadEx Z K inp None e"

text \<open>
  Inflate inverts deflate: compressing succeeds, and uncompressing the payload into a
  buffer of the original size gives the original bytes.
\<close>

definition inflate_inverts_deflate :: "zlib \<Rightarrow> bool" where
  "inflate_inverts_deflate Z \<longleftrightarrow>
     (\<forall>x. \<exists>z. compress2 Z x = Some z \<and> uncompress Z (length x) z = Some x)"

section \<open>The search loop (playfun-nobacktrack-libretro.cc, struct PlayFun)\<close>

text \<open>
  Scores are \<^verbatim>\<open>double\<close>s, modelled as reals: the properties below are about which
  memories are scored and in what order, not about rounding.
\<close>

type_synonym score_fn = "bytes \<Rightarrow> bytes \<Rightarrow> real"

record PlayFun =
  motifvec :: "bytes list"
  solution :: bytes
  movie :: bytes
  recent_futures :: "real list"
  avoid_depths :: "nat list"
  seek_depths :: "nat list"
  motif_scores :: "real list"
  motif_uses :: nat

text \<open>
  The loop of the constructor, \<^verbatim>\<open>while (start < solution.size())\<close>: step the byte, append
  it to the movie, leave the loop if it is not zero, else go on with the next.
\<close>

function fast_forward ::
  "'c retro_core \<Rightarrow> bytes \<Rightarrow> nat \<Rightarrow> 'c emu \<Rightarrow> bytes \<Rightarrow> nat \<times> 'c emu \<times> bytes" where
  "fast_forward K sol start e mv =
     (if start < length sol
      then (let e' = Step K (sol ! start) e;
                mv' = mv @ [sol ! start]
            in if sol ! start \<noteq> 0 then (start, e', mv')
               else fast_forward K sol (start + 1) e' mv')
      else (start, e, mv))"
  by pat_completeness auto
termination
  by (relation "measure (\<lambda>(K, sol, start, e, mv). length sol - start)") auto

text \<open>
  The constructor: the objectives and the motifs come from files (\<open>motifs\<close> is
  \<^verbatim>\<open>AllMotifs()\<close>, \<open>sol\<close> is \<^verbatim>\<open>ReadInputs(movie_file)\<close>). The result is the object, the
  frontend afterwards and the number the constructor prints.
\<close>

definition PlayFun_new ::
  "'c retro_core \<Rightarrow> bytes list \<Rightarrow> bytes \<Rightarrow> 'c emu \<Rightarrow> PlayFun \<times> 'c emu \<times> nat" where
  "PlayFun_new K motifs sol e =
     (case fast_forward K sol 0 (ResetCache 100000 10000 e) [] of
        (start, e', mv) \<Rightarrow>
          (\<lparr>motifvec = motifs, solution = sol, movie = mv, recent_futures = [],
            avoid_depths = [20, 75], seek_depths = [30, 30, 50],
            motif_scores = [], motif_uses = 0\<rparr>, e', start))"

text \<open>
  \<^verbatim>\<open>AvoidBadFutures\<close>. \<^verbatim>\<open>RandomWeightedMotif\<close> draws from a generator outside this file:
  \<open>rw\<close> maps the generator's state to the motif drawn and the state afterwards.
  \<open>avoid_motif\<close> is the loop over the bytes of one motif (\<open>x\<close> is the index of the byte
  \<open>b\<close>), \<open>avoid_trial\<close> the loop over \<open>d\<close> with \<open>n\<close> iterations to go, \<open>avoid_trials\<close> the
  loop over \<open>i\<close>.
\<close>

fun avoid_motif ::
  "'c retro_core \<Rightarrow> score_fn \<Rightarrow> bytes \<Rightarrow> nat \<Rightarrow> nat \<Rightarrow> nat \<Rightarrow> bytes \<Rightarrow> 'c emu \<times> real
     \<Rightarrow> ('c emu \<times> real) option" where
  "avoid_motif K sc base_memory i d x [] (e, tot) = Some (e, tot)"
| "avoid_motif K sc base_memory i d x (b # m) (e, tot) =
     (case CachingStep K b e of
        None \<Rightarrow> None
      | Some e' \<Rightarrow>
          (let future_memory = GetMemory K e';
               score = sc base_memory future_memory;
               tot' = (if i \<noteq> 0 \<or> d \<noteq> 0 \<or> x \<noteq> 0 then min tot score else score)
           in avoid_motif K sc base_memory i d (x + 1) m (e', tot')))"

fun avoid_trial ::
  "'c retro_core \<Rightarrow> score_fn \<Rightarrow> ('r \<Rightarrow> bytes \<times> 'r) \<Rightarrow> bytes \<Rightarrow> nat \<Rightarrow> nat \<Rightarrow> nat
     \<Rightarrow> 'c emu \<times> 'r \<times> real \<Rightarrow> ('c emu \<times> 'r \<times> real) option" where
  "avoid_trial K sc rw base_memory i 0 d st = Some st"
| "avoid_trial K sc rw base_memory i (Suc n) d (e, r, tot) =
     (case rw r of
        (m, r') \<Rightarrow>
          (case avoid_motif K sc base_memory i d 0 m (e, tot) of
             None \<Rightarrow> None
           | Some (e', tot') \<Rightarrow> avoid_trial K sc rw base_memory i n (d + 1) (e', r', tot')))"

fun avoid_trials ::
  "'c retro_core \<Rightarrow> score_fn \<Rightarrow> ('r \<Rightarrow> bytes \<times> 'r) \<Rightarrow> nat list \<Rightarrow> bytes \<Rightarrow> bytes
     \<Rightarrow> nat list \<Rightarrow> 'c emu \<times> 'r \<times> real \<Rightarrow> ('c emu \<times> 'r \<times> real) option" where
  "avoid_trials K sc rw depths base_memory base_state [] st = Some st"
| "avoid_trials K sc rw depths base_memory base_state (i # is) (e, r, tot) =
     (let e0 = (if i \<noteq> 0 then LoadUncompressed K base_state e else e)
      in case avoid_trial K sc rw base_memory i (depths ! i) 0 (e0, r, tot) of
           None \<Rightarrow> None
         | Some st' \<Rightarrow> avoid_trials K sc rw depths base_memory base_state is st')"

definition AvoidBadFutures ::
  "'c retro_core \<Rightarrow> score_fn \<Rightarrow> ('r \<Rightarrow> bytes \<times> 'r) \<Rightarrow> nat list \<Rightarrow> bytes \<Rightarrow> 'c emu \<times> 'r
     \<Rightarrow> (real \<times> 'c emu \<times> 'r) option" where
  "AvoidBadFutures K sc rw depths base_memory st =
     (case st of
        (e, r) \<Rightarrow>
          (let base_state = SaveUncompressed K e []
           in case avoid_trials K sc rw depths base_memory base_state [0..<2] (e, r, 1) of
                None \<Rightarrow> None
              | Some (e', r', tot) \<Rightarrow> Some (tot, e', r')))"

text \<open>
  \<^verbatim>\<open>SeekGoodFutures\<close>: \<open>seek_trial\<close> is the loop over \<open>d\<close> (the loop over the bytes of a
  motif is \<open>caching_steps\<close>), \<open>seek_trials\<close> the loop over \<open>i\<close>, which scores the memory
  at the end of each trial.
\<close>

fun seek_trial ::
  "'c retro_core \<Rightarrow> ('r \<Rightarrow> bytes \<times> 'r) \<Rightarrow> nat \<Rightarrow> 'c emu \<times> 'r \<Rightarrow> ('c emu \<times> 'r) option" where
  "seek_trial K rw 0 st = Some st"
| "seek_trial K rw (Suc n) (e, r) =
     (case rw r of
        (m, r') \<Rightarrow>
          (case caching_steps K m e of
             None \<Rightarrow> None
           | Some e' \<Rightarrow> seek_trial K rw n (e', r')))"

fun seek_trials ::
  "'c retro_core \<Rightarrow> score_fn \<Rightarrow> ('r \<Rightarrow> bytes \<times> 'r) \<Rightarrow> nat list \<Rightarrow> bytes \<Rightarrow> bytes
     \<Rightarrow> nat list \<Rightarrow> 'c emu \<times> 'r \<times> real \<Rightarrow> ('c emu \<times> 'r \<times> real) option" where
  "seek_trials K sc rw depths base_memory base_state [] st = Some st"
| "seek_trials K sc rw depths base_memory base_state (i # is) (e, r, tot) =
     (let e0 = (if i \<noteq> 0 then LoadUncompressed K base_state e else e)
      in case seek_trial K rw (depths ! i) (e0, r) of
           None \<Rightarrow> None
         | Some (e', r') \<Rightarrow>
             (let future_memory = GetMemory K e';
                  score = sc base_memory future_memory;
                  tot' = (if i \<noteq> 0 then max tot score else score)
              in seek_trials K sc rw depths base_memory base_state is (e', r', tot')))"

definition SeekGoodFutures ::
  "'c retro_core \<Rightarrow> score_fn \<Rightarrow> ('r \<Rightarrow> bytes \<times> 'r) \<Rightarrow> nat list \<Rightarrow> bytes \<Rightarrow> 'c emu \<times> 'r
     \<Rightarrow> (real \<times> 'c emu \<times> 'r) option" where
  "SeekGoodFutures K sc rw depths base_memory st =
     (case st of
        (e, r) \<Rightarrow>
          (let base_state = SaveUncompressed K e []
           in case seek_trials K sc rw depths base_memory base_state [0..<3] (e, r, 1) of
                None \<Rightarrow> None
              | Some (e', r', tot) \<Rightarrow> Some (tot, e', r')))"

text \<open>
  One pass of the loop over \<open>trial\<close> in \<^verbatim>\<open>Greedy\<close>, up to \<^verbatim>\<open>double score = ...\<close>:
  \<open>current_state\<close> and \<open>current_memory\<close> are the snapshots taken at the start of the
  frame, \<open>motif\<close> is \<^verbatim>\<open>motifvec[motif_idx]\<close>. The result is \<open>immediate_score\<close>,
  \<open>future_score\<close>, the frontend and the generator afterwards.
\<close>

definition Greedy_trial ::
  "'c retro_core \<Rightarrow> score_fn \<Rightarrow> ('r \<Rightarrow> bytes \<times> 'r) \<Rightarrow> PlayFun \<Rightarrow> bytes \<Rightarrow> bytes \<Rightarrow> nat \<Rightarrow> bytes
     \<Rightarrow> 'c emu \<times> 'r \<Rightarrow> (real \<times> real \<times> 'c emu \<times> 'r) option" where
  "Greedy_trial K sc rw pf current_state current_memory trial motif st =
     (case st of
        (e, r) \<Rightarrow>
          (let e0 = (if trial \<noteq> 0 then LoadUncompressed K current_state e else e)
           in case caching_steps K motif e0 of
                None \<Rightarrow> None
              | Some e1 \<Rightarrow>
                  (let new_memory = GetMemory K e1;
                       new_state = SaveUncompressed K e1 [];
                       immediate_score = sc current_memory new_memory
                   in case AvoidBadFutures K sc rw (avoid_depths pf) new_memory (e1, r) of
                        None \<Rightarrow> None
                      | Some (avoid, e2, r2) \<Rightarrow>
                          (case SeekGoodFutures K sc rw (seek_depths pf) new_memory
                                  (LoadUncompressed K new_state e2, r2) of
                             None \<Rightarrow> None
                           | Some (seek, e3, r3) \<Rightarrow>
                               Some (immediate_score, avoid + seek, e3, r3)))))"

text \<open>
  The look-ahead taken apart. How \<^verbatim>\<open>AvoidBadFutures\<close> folds its scores into \<open>total\<close>
  (line 188: the score at \<open>i = d = x = 0\<close> replaces it, every other one is a \<open>min\<close>), and
  how \<^verbatim>\<open>SeekGoodFutures\<close> does (line 213: the score at \<open>i = 0\<close> replaces it, every other
  one is a \<open>max\<close>); both start from \<open>1\<close>.
\<close>

definition avoid_total :: "((nat \<times> nat \<times> nat) \<times> real) list \<Rightarrow> real \<Rightarrow> real" where
  "avoid_total scores tot =
     fold (\<lambda>((i, d, x), score) tot. if i \<noteq> 0 \<or> d \<noteq> 0 \<or> x \<noteq> 0 then min tot score else score)
       scores tot"

definition seek_total :: "(nat \<times> real) list \<Rightarrow> real \<Rightarrow> real" where
  "seek_total scores tot =
     fold (\<lambda>(i, score) tot. if i \<noteq> 0 then max tot score else score) scores tot"

text \<open>
  The memories the loops of \<^verbatim>\<open>AvoidBadFutures\<close> read into \<open>future_memory\<close>, in the order
  they are read, each with the loop indices \<open>(i, d, x)\<close> at which it is read: the same
  loops as \<open>avoid_motif\<close>, \<open>avoid_trial\<close> and \<open>avoid_trials\<close>, with no score in them.
\<close>

fun avoid_motif_mems ::
  "'c retro_core \<Rightarrow> nat \<Rightarrow> nat \<Rightarrow> nat \<Rightarrow> bytes \<Rightarrow> 'c emu
     \<Rightarrow> ('c emu \<times> ((nat \<times> nat \<times> nat) \<times> bytes) list) option" where
  "avoid_motif_mems K i d x [] e = Some (e, [])"
| "avoid_motif_mems K i d x (b # m) e =
     (case CachingStep K b e of
        None \<Rightarrow> None
      | Some e' \<Rightarrow>
          (case avoid_motif_mems K i d (x + 1) m e' of
             None \<Rightarrow> None
           | Some (e'', ms) \<Rightarrow> Some (e'', ((i, d, x), GetMemory K e') # ms)))"

fun avoid_trial_mems ::
  "'c retro_core \<Rightarrow> ('r \<Rightarrow> bytes \<times> 'r) \<Rightarrow> nat \<Rightarrow> nat \<Rightarrow> nat \<Rightarrow> 'c emu \<times> 'r
     \<Rightarrow> ('c emu \<times> 'r \<times> ((nat \<times> nat \<times> nat) \<times> bytes) list) option" where
  "avoid_trial_mems K rw i 0 d (e, r) = Some (e, r, [])"
| "avoid_trial_mems K rw i (Suc n) d (e, r) =
     (case rw r of
        (m, r') \<Rightarrow>
          (case avoid_motif_mems K i d 0 m e of
             None \<Rightarrow> None
           | Some (e', ms) \<Rightarrow>
               (case avoid_trial_mems K rw i n (d + 1) (e', r') of
                  None \<Rightarrow> None
                | Some (e'', r'', ms') \<Rightarrow> Some (e'', r'', ms @ ms'))))"

fun avoid_trials_mems ::
  "'c retro_core \<Rightarrow> ('r \<Rightarrow> bytes \<times> 'r) \<Rightarrow> nat list \<Rightarrow> bytes \<Rightarrow> nat list \<Rightarrow> 'c emu \<times> 'r
     \<Rightarrow> ('c emu \<times> 'r \<times> ((nat \<times> nat \<times> nat) \<times> bytes) list) option" where
  "avoid_trials_mems K rw depths base_state [] (e, r) = Some (e, r, [])"
| "avoid_trials_mems K rw depths base_state (i # is) (e, r) =
     (let e0 = (if i \<noteq> 0 then LoadUncompressed K base_state e else e)
      in case avoid_trial_mems K rw i (depths ! i) 0 (e0, r) of
           None \<Rightarrow> None
         | Some (e', r', ms) \<Rightarrow>
             (case avoid_trials_mems K rw depths base_state is (e', r') of
                None \<Rightarrow> None
              | Some (e'', r'', ms') \<Rightarrow> Some (e'', r'', ms @ ms')))"

definition avoid_rollouts ::
  "'c retro_core \<Rightarrow> ('r \<Rightarrow> bytes \<times> 'r) \<Rightarrow> nat list \<Rightarrow> 'c emu \<times> 'r
     \<Rightarrow> (((nat \<times> nat \<times> nat) \<times> bytes) list \<times> 'c emu \<times> 'r) option" where
  "avoid_rollouts K rw depths st =
     (case st of
        (e, r) \<Rightarrow>
          (case avoid_trials_mems K rw depths (SaveUncompressed K e []) [0..<2] (e, r) of
             None \<Rightarrow> None
           | Some (e', r', ms) \<Rightarrow> Some (ms, e', r')))"

text \<open>
  The memories \<^verbatim>\<open>SeekGoodFutures\<close> reads into \<open>future_memory\<close>, one at the end of each
  trial \<open>i\<close>.
\<close>

fun seek_trials_mems ::
  "'c retro_core \<Rightarrow> ('r \<Rightarrow> bytes \<times> 'r) \<Rightarrow> nat list \<Rightarrow> bytes \<Rightarrow> nat list \<Rightarrow> 'c emu \<times> 'r
     \<Rightarrow> ('c emu \<times> 'r \<times> (nat \<times> bytes) list) option" where
  "seek_trials_mems K rw depths base_state [] (e, r) = Some (e, r, [])"
| "seek_trials_mems K rw depths base_state (i # is) (e, r) =
     (let e0 = (if i \<noteq> 0 then LoadUncompressed K base_state e else e)
      in case seek_trial K rw (depths ! i) (e0, r) of
           None \<Rightarrow> None
         | Some (e', r') \<Rightarrow>
             (case seek_trials_mems K rw depths base_state is (e', r') of
                None \<Rightarrow> None
              | Some (e'', r'', ms) \<Rightarrow> Some (e'', r'', (i, GetMemory K e') # ms)))"

definition seek_rollouts ::
  "'c retro_core \<Rightarrow> ('r \<Rightarrow> bytes \<times> 'r) \<Rightarrow> nat list \<Rightarrow> 'c emu \<times> 'r
     \<Rightarrow> ((nat \<times> bytes) list \<times> 'c emu \<times> 'r) option" where
  "seek_rollouts K rw depths st =
     (case st of
        (e, r) \<Rightarrow>
          (case seek_trials_mems K rw depths (SaveUncompressed K e []) [0..<3] (e, r) of
             None \<Rightarrow> None
           | Some (e', r', ms) \<Rightarrow> Some (ms, e', r')))"

text \<open>The scores of a list of memories against the baseline \<open>base\<close>.\<close>

definition scored :: "score_fn \<Rightarrow> bytes \<Rightarrow> ('t \<times> bytes) list \<Rightarrow> ('t \<times> real) list" where
  "scored sc base ms = map (\<lambda>(t, m). (t, sc base m)) ms"

text \<open>
  The same pass as the specification words it (section 4.5, steps 3a to 3h): the two
  look-ahead scores take the memory \<open>M\<^sub>0\<close> snapshotted before the motif.
\<close>

definition Greedy_trial_spec ::
  "'c retro_core \<Rightarrow> score_fn \<Rightarrow> ('r \<Rightarrow> bytes \<times> 'r) \<Rightarrow> PlayFun \<Rightarrow> bytes \<Rightarrow> bytes \<Rightarrow> nat \<Rightarrow> bytes
     \<Rightarrow> 'c emu \<times> 'r \<Rightarrow> (real \<times> real \<times> 'c emu \<times> 'r) option" where
  "Greedy_trial_spec K sc rw pf S0 M0 trial motif st =
     (case st of
        (e, r) \<Rightarrow>
          (let e0 = (if trial \<noteq> 0 then LoadUncompressed K S0 e else e)
           in case caching_steps K motif e0 of
                None \<Rightarrow> None
              | Some e1 \<Rightarrow>
                  (let M1 = GetMemory K e1;
                       S1 = SaveUncompressed K e1 [];
                       immediate_score = sc M0 M1
                   in case AvoidBadFutures K sc rw (avoid_depths pf) M0 (e1, r) of
                        None \<Rightarrow> None
                      | Some (avoid_score, e2, r2) \<Rightarrow>
                          (case SeekGoodFutures K sc rw (seek_depths pf) M0
                                  (LoadUncompressed K S1 e2, r2) of
                             None \<Rightarrow> None
                           | Some (seek_score, e3, r3) \<Rightarrow>
                               Some (immediate_score, avoid_score + seek_score, e3, r3)))))"

section \<open>Invariants of the state cache\<close>

definition seq_of :: "Key \<times> Value \<Rightarrow> u64" where
  "seq_of e = fst (snd e)"

text \<open>
  Keys are pairwise different (the table is a map), sequence numbers are pairwise
  different, and every sequence number is below \<open>next_seq\<close>.
\<close>

definition cache_inv :: "StateCache \<Rightarrow> bool" where
  "cache_inv c \<longleftrightarrow>
     distinct (map fst (table c)) \<and> distinct (map seq_of (table c)) \<and>
     list_all (\<lambda>e. seq_of e < next_seq c) (table c)"

text \<open>\<open>count\<close> is the number of entries of the table.\<close>

definition count_ok :: "StateCache \<Rightarrow> bool" where
  "count_ok c \<longleftrightarrow> unat (count c) = length (table c)"

text \<open>The same for the cache of the frontend, when it has one.\<close>

definition cache_count_ok :: "'c emu \<Rightarrow> bool" where
  "cache_count_ok e \<longleftrightarrow> (case g_cache e of None \<Rightarrow> True | Some c \<Rightarrow> count_ok c)"

section \<open>What the cache assumes of the core\<close>

text \<open>The serialised state of the core: \<^verbatim>\<open>retro_serialize\<close> into a buffer of its own size.\<close>

definition ser :: "'c retro_core \<Rightarrow> 'c \<Rightarrow> bytes option" where
  "ser K c = fn_serialize K c (fn_serialize_size K c)"

text \<open>
  A deterministic core whose serialisation captures its state: serialising succeeds
  and is not empty; the same serialised pre-state and the same pads give the same
  serialised post-state; unserialising a serialised state restores it; and the system
  RAM is a function of the serialised state.
\<close>

definition core_ok :: "'c retro_core \<Rightarrow> bool" where
  "core_ok K \<longleftrightarrow>
     (\<forall>c. \<exists>bs. ser K c = Some bs \<and> bs \<noteq> []) \<and>
     (\<forall>pads c c'. ser K c = ser K c' \<longrightarrow>
        ser K (fst (fn_run K pads c)) = ser K (fst (fn_run K pads c'))) \<and>
     (\<forall>c c' bs. ser K c = Some bs \<longrightarrow> ser K (snd (fn_unserialize K bs c')) = Some bs) \<and>
     (\<forall>pads pads' c c'. ser K c = ser K c' \<longrightarrow>
        GetRAM K \<lparr>core = c, rom_loaded = True, input_state = pads\<rparr> =
        GetRAM K \<lparr>core = c', rom_loaded = True, input_state = pads'\<rparr>)"

text \<open>
  An entry is sound when its post-state is what one frame with its input byte makes of
  any core state that serialises to its pre-state (\<open>pads\<close> are the wrapper's pads; the
  entry's byte replaces the first).
\<close>

definition entry_sound :: "'c retro_core \<Rightarrow> u8 list \<Rightarrow> Key \<times> Value \<Rightarrow> bool" where
  "entry_sound K pads e \<longleftrightarrow>
     (\<forall>c. ser K c = Some (snd (fst e)) \<longrightarrow>
        ser K (fst (fn_run K (pads[0 := fst (fst e)]) c)) = Some (snd (snd e)))"

text \<open>
  The frontend holds a loaded core, and every entry of its cache, when it has one, is
  sound.
\<close>

definition emu_ok :: "'c retro_core \<Rightarrow> 'c emu \<Rightarrow> bool" where
  "emu_ok K e \<longleftrightarrow>
     (case g_wrapper e of
        None \<Rightarrow> False
      | Some w \<Rightarrow>
          rom_loaded w \<and>
          (case g_cache e of
             None \<Rightarrow> True
           | Some c \<Rightarrow> distinct (map fst (table c)) \<and> list_all (entry_sound K (input_state w)) (table c)))"

text \<open>The cache has room for \<open>n\<close> more entries without reaching \<open>MaybeGC\<close>'s bound.\<close>

definition has_room :: "nat \<Rightarrow> 'c emu \<Rightarrow> bool" where
  "has_room n e \<longleftrightarrow>
     (case g_cache e of
        None \<Rightarrow> False
      | Some c \<Rightarrow>
          unat (count c) + n \<le> unat (limit c) + unat (slop c) \<and>
          unat (limit c) + unat (slop c) < 2 ^ 64)"



text \<open>
  Two frontends hold the same machine: both cores are loaded, serialise alike, and the
  pads agree but for the first, which every step overwrites.
\<close>

definition same_machine :: "'c retro_core \<Rightarrow> 'c emu \<Rightarrow> 'c emu \<Rightarrow> bool" where
  "same_machine K e e' \<longleftrightarrow>
     (case (g_wrapper e, g_wrapper e') of
        (Some w, Some w') \<Rightarrow>
          rom_loaded w \<and> rom_loaded w' \<and> ser K (core w) = ser K (core w') \<and>
          (input_state w)[0 := 0] = (input_state w')[0 := 0]
      | _ \<Rightarrow> False)"

definition cache_table :: "'c emu \<Rightarrow> (Key \<times> Value) list" where
  "cache_table e = (case g_cache e of None \<Rightarrow> [] | Some c \<Rightarrow> table c)"

text \<open>\<open>t'\<close> has every key of \<open>t\<close> with the same post-state (sequence numbers may differ).\<close>

definition table_extends :: "(Key \<times> Value) list \<Rightarrow> (Key \<times> Value) list \<Rightarrow> bool" where
  "table_extends t t' \<longleftrightarrow> (\<forall>k v. map_of t k = Some v \<longrightarrow> (\<exists>s. map_of t' k = Some (s, snd v)))"


section \<open>The canonical frame\<close>

text \<open>
  What the video callback computes, byte by byte: the byte \<open>i\<close> of the 256 by 256 RGBA
  image belongs to the pixel in row \<open>i div 1024\<close> and column \<open>(i mod 1024) div 4\<close>. Inside
  the reported window, and where the four source bytes lie inside the frame data, it is
  a byte of the converted source pixel; elsewhere it is the byte the buffer had.
\<close>

definition src_offset :: "FrameBuffer \<Rightarrow> nat \<Rightarrow> nat \<Rightarrow> nat" where
  "src_offset fb y x = unat (of_nat y * pitch fb + of_nat x * 4 :: u32)"

definition converted :: "FrameBuffer \<Rightarrow> nat \<Rightarrow> nat \<Rightarrow> bytes" where
  "converted fb y x =
     [data fb ! (src_offset fb y x + 2), data fb ! (src_offset fb y x + 1),
      data fb ! (src_offset fb y x + 0), 0xFF]"

definition canonical_byte :: "FrameBuffer \<Rightarrow> bytes \<Rightarrow> nat \<Rightarrow> u8" where
  "canonical_byte fb prev i =
     (let y = i div 1024; x = (i mod 1024) div 4
      in if y < min (unat (height fb)) 256 \<and> x < min (unat (width fb)) 256 \<and>
            src_offset fb y x + 3 < length (data fb)
         then converted fb y x ! (i mod 4)
         else prev ! i)"

section \<open>Concrete instances\<close>

text \<open>A cache of two entries that is over its bound after one more insertion.\<close>

definition demo_cache :: StateCache where
  "demo_cache =
     \<lparr>table = [((0, [1]), (0, [2])), ((1, [1]), (1, [3]))],
      limit = 1, count = 2, next_seq = 2, slop = 1, hits = 0, misses = 2\<rparr>"

text \<open>
  A one-byte machine: a frame adds the first pad and one to the state; the state is its
  own serialisation and its own RAM. It presents no video.
\<close>

definition counter_core :: "u8 retro_core" where
  "counter_core =
     \<lparr>fn_run = (\<lambda>pads c. (c + hd pads + 1, [])),
      fn_serialize_size = (\<lambda>c. 1),
      fn_serialize = (\<lambda>c n. if n = 1 then Some [c] else None),
      fn_unserialize = (\<lambda>bs c. case bs of [b] \<Rightarrow> (True, b) | _ \<Rightarrow> (False, c)),
      fn_get_memory_data = (\<lambda>c. Some [c]),
      fn_get_memory_size = (\<lambda>c. 1)\<rparr>"

text \<open>The frontend after a successful \<^verbatim>\<open>Initialize\<close> of that core, in state \<open>0\<close>.\<close>

definition loaded_emu :: "u8 emu" where
  "loaded_emu = snd (Initialize (Some 0) emu_start)"

text \<open>A stand-in for zlib that stores the bytes as they are.\<close>

definition store_zlib :: zlib where
  "store_zlib =
     \<lparr>compress2 = (\<lambda>x. Some x),
      uncompress = (\<lambda>n z. if length z \<le> n then Some z else None)\<rparr>"

text \<open>
  A machine that latches: every frame leaves it in state \<open>1\<close>. A generator that always
  draws the motif \<open>[0]\<close>, and a score that tells equal memories from different ones.
\<close>

definition latch_core :: "u8 retro_core" where
  "latch_core =
     \<lparr>fn_run = (\<lambda>pads c. (1, [])),
      fn_serialize_size = (\<lambda>c. 1),
      fn_serialize = (\<lambda>c n. if n = 1 then Some [c] else None),
      fn_unserialize = (\<lambda>bs c. case bs of [b] \<Rightarrow> (True, b) | _ \<Rightarrow> (False, c)),
      fn_get_memory_data = (\<lambda>c. Some [c]),
      fn_get_memory_size = (\<lambda>c. 1)\<rparr>"

definition demo_rw :: "nat \<Rightarrow> bytes \<times> nat" where
  "demo_rw r = ([0], r + 1)"

definition demo_score :: score_fn where
  "demo_score b m = (if b = m then 0 else 1)"

text \<open>
  The search on that machine at its first frame: the object and the frontend as the
  constructor leaves them for the single motif \<open>[0]\<close> and an empty input movie.
\<close>

definition demo_pf :: PlayFun where
  "demo_pf = fst (PlayFun_new latch_core [[0]] [] loaded_emu)"

definition demo_frame :: "u8 emu" where
  "demo_frame = fst (snd (PlayFun_new latch_core [[0]] [] loaded_emu))"

text \<open>
  The latched machine with a cache that knows the step from state \<open>1\<close>: from here every
  \<open>CachingStep\<close> is a hit.
\<close>

definition steady :: "u8 emu \<Rightarrow> bool" where
  "steady e \<longleftrightarrow>
     g_wrapper e = Some \<lparr>core = 1, rom_loaded = True, input_state = [0, 0]\<rparr> \<and>
     (case g_cache e of
        None \<Rightarrow> False
      | Some c \<Rightarrow> (case map_of (table c) (0, [1]) of None \<Rightarrow> False | Some v \<Rightarrow> snd v = [1]))"

text \<open>The frontend of \<open>demo_frame\<close> after the motif, and after one more step.\<close>

definition after_motif :: "u8 emu" where
  "after_motif = \<lparr>g_wrapper = Some \<lparr>core = 1, rom_loaded = True, input_state = [0, 0]\<rparr>,
     g_initialized = True, g_frame_rgba = [],
     g_cache = Some \<lparr>table = [((0, [0]), (0, [1]))], limit = 100000, count = 1, next_seq = 1,
                       slop = 10000, hits = 0, misses = 1\<rparr>\<rparr>"

definition after_first :: "u8 emu" where
  "after_first = \<lparr>g_wrapper = Some \<lparr>core = 1, rom_loaded = True, input_state = [0, 0]\<rparr>,
     g_initialized = True, g_frame_rgba = [],
     g_cache = Some \<lparr>table = [((0, [0]), (0, [1])), ((0, [1]), (1, [1]))], limit = 100000,
                       count = 2, next_seq = 2, slop = 10000, hits = 0, misses = 2\<rparr>\<rparr>"

text \<open>
  A core that presents a 2 by 2 frame in state \<open>0\<close> and a 1 by 1 frame in every other
  state, all source bytes \<open>0x55\<close>; a frame increments the state.
\<close>

definition shrink_core :: "u8 retro_core" where
  "shrink_core =
     \<lparr>fn_run = (\<lambda>pads c.
         (c + 1,
          [\<lparr>frame_data = Some (\<lambda>a. 0x55),
            frame_width = (if c = 0 then 2 else 1),
            frame_height = (if c = 0 then 2 else 1),
            frame_pitch = (if c = 0 then 8 else 4)\<rparr>])),
      fn_serialize_size = (\<lambda>c. 1),
      fn_serialize = (\<lambda>c n. if n = 1 then Some [c] else None),
      fn_unserialize = (\<lambda>bs c. case bs of [b] \<Rightarrow> (True, b) | _ \<Rightarrow> (False, c)),
      fn_get_memory_data = (\<lambda>c. Some [c]),
      fn_get_memory_size = (\<lambda>c. 1)\<rparr>"

text \<open>The two frames as the video callback receives them.\<close>

definition big_frame :: FrameBuffer where
  "big_frame = \<lparr>data = replicate 16 0x55, width = 2, height = 2, pitch = 8\<rparr>"

definition small_frame :: FrameBuffer where
  "small_frame = \<lparr>data = replicate 4 0x55, width = 1, height = 1, pitch = 4\<rparr>"

text \<open>
  A machine that climbs: a frame takes state \<open>0\<close> to \<open>1\<close> and every other state to \<open>2\<close>.
  A score that tells which baseline and which memory it was given.
\<close>

definition ramp_core :: "u8 retro_core" where
  "ramp_core =
     \<lparr>fn_run = (\<lambda>pads c. (if c = 0 then 1 else 2, [])),
      fn_serialize_size = (\<lambda>c. 1),
      fn_serialize = (\<lambda>c n. if n = 1 then Some [c] else None),
      fn_unserialize = (\<lambda>bs c. case bs of [b] \<Rightarrow> (True, b) | _ \<Rightarrow> (False, c)),
      fn_get_memory_data = (\<lambda>c. Some [c]),
      fn_get_memory_size = (\<lambda>c. 1)\<rparr>"

definition ramp_score :: score_fn where
  "ramp_score b m = 10 * real (unat (hd b)) + real (unat (hd m))"

text \<open>The search on that machine at its first frame, for the single motif \<open>[0]\<close>.\<close>

definition ramp_pf :: PlayFun where
  "ramp_pf = fst (PlayFun_new ramp_core [[0]] [] loaded_emu)"

definition ramp_frame :: "u8 emu" where
  "ramp_frame = fst (snd (PlayFun_new ramp_core [[0]] [] loaded_emu))"

section \<open>Properties of the state cache\<close>

lemma sweep_eq:
  "sweep m t cnt =
     (filter (\<lambda>e. \<not> seq_of e < m) t,
      cnt - of_nat (length (filter (\<lambda>e. seq_of e < m) t)))"
  by (induction t arbitrary: cnt) (auto split: prod.splits simp: seq_of_def)

lemma word_less_succ:
  fixes x n :: u64
  assumes "x < n" "n + 1 \<noteq> 0"
  shows "x < n + 1"
  using assms by unat_arith

lemma word_lt_succ_self:
  fixes n :: u64
  assumes "n + 1 \<noteq> 0"
  shows "n < n + 1"
  using assms by unat_arith

lemma MaybeGC_table:
  assumes "MaybeGC c = Some c'"
  shows "\<exists>P. table c' = filter P (table c) \<and> next_seq c' = next_seq c"
proof (cases "count c \<le> limit c + slop c")
  case True
  with assms have "c' = c" by (simp add: MaybeGC_def)
  then have "table c' = filter (\<lambda>_. True) (table c) \<and> next_seq c' = next_seq c" by simp
  then show ?thesis by blast
next
  case False
  with assms show ?thesis
    by (auto simp: MaybeGC_def sweep_eq Let_def split: if_splits)
qed

lemma cache_inv_filter:
  assumes "cache_inv c" "table c' = filter P (table c)" "next_seq c' = next_seq c"
  shows "cache_inv c'"
  using assms
  by (auto simp: cache_inv_def distinct_map_filter list_all_iff)

lemma cache_inv_MaybeGC:
  assumes "cache_inv c" "MaybeGC c = Some c'"
  shows "cache_inv c'"
  using MaybeGC_table[OF assms(2)] cache_inv_filter[OF assms(1)] by blast

lemma map_fst_restamp: "map fst (restamp k s t) = map fst t"
  by (induction t) (auto simp: restamp_def)

lemma cache_inv_emplace:
  assumes "cache_inv c" "next_seq c + 1 \<noteq> 0"
  shows "cache_inv (c\<lparr>table := emplace k (next_seq c, r) (table c),
                next_seq := next_seq c + 1,
                count := cnt\<rparr>)"
proof -
  have lt: "\<And>e. e \<in> set (table c) \<Longrightarrow> seq_of e < next_seq c"
    using assms(1) by (simp add: cache_inv_def list_all_iff)
  have fresh: "next_seq c \<notin> seq_of ` set (table c)"
    using lt by fastforce
  show ?thesis
  proof (cases "map_of (table c) k")
    case None
    then have "k \<notin> fst ` set (table c)" by (simp add: map_of_eq_None_iff)
    with assms fresh lt show ?thesis
      by (auto simp: cache_inv_def emplace_def None list_all_iff seq_of_def
               intro: word_less_succ word_lt_succ_self)
  next
    case (Some v)
    with assms lt show ?thesis
      by (auto simp: cache_inv_def emplace_def list_all_iff intro: word_less_succ)
  qed
qed

lemma cache_inv_Remember:
  assumes "cache_inv c" "next_seq c + 1 \<noteq> 0" "Remember i s r c = Some c'"
  shows "cache_inv c'"
  using cache_inv_MaybeGC[OF cache_inv_emplace[OF assms(1,2)]] assms(3)
  unfolding Remember_def by blast

lemma distinct_restamp:
  assumes "distinct (map fst t)" "distinct (map seq_of t)" "\<forall>e\<in>set t. seq_of e \<noteq> s"
  shows "distinct (map seq_of (restamp k s t))"
  using assms
proof (induction t)
  case Nil then show ?case by (simp add: restamp_def)
next
  case (Cons a t)
  have tl: "distinct (map seq_of (restamp k s t))" using Cons by simp
  have rs: "restamp k s (a # t) = (if fst a = k then (fst a, (s, snd (snd a))) else a) # restamp k s t"
    by (cases a) (auto simp: restamp_def)
  have set_rs: "seq_of ` set (restamp k s t) \<subseteq> insert s (seq_of ` set t)"
    by (auto simp: restamp_def seq_of_def split: if_splits)
  show ?case
  proof (cases "fst a = k")
    case True
    then have "k \<notin> fst ` set t" using Cons.prems(1) by auto
    then have "\<forall>e\<in>set t. fst e \<noteq> k" by (metis imageI)
    then have "restamp k s t = t" by (induction t) (auto simp: restamp_def)
    moreover have "seq_of (fst a, (s, snd (snd a))) = s" by (simp add: seq_of_def)
    ultimately show ?thesis using True rs Cons.prems by auto
  next
    case False
    with rs tl set_rs Cons.prems show ?thesis by auto
  qed
qed

lemma cache_inv_GetKnown:
  assumes "cache_inv c" "next_seq c + 1 \<noteq> 0"
  shows "cache_inv (snd (GetKnown i s c))"
proof (cases "map_of (table c) (i, s)")
  case None
  with assms show ?thesis by (simp add: GetKnown_def cache_inv_def)
next
  case (Some v)
  have lt: "\<And>e. e \<in> set (table c) \<Longrightarrow> seq_of e < next_seq c"
    using assms(1) by (simp add: cache_inv_def list_all_iff)
  then have ne: "\<forall>e\<in>set (table c). seq_of e \<noteq> next_seq c" by fastforce
  have d: "distinct (map seq_of (restamp (i, s) (next_seq c) (table c)))"
    using distinct_restamp[OF _ _ ne] assms(1) by (simp add: cache_inv_def)
  have b: "seq_of e < next_seq c + 1" if "e \<in> set (restamp (i, s) (next_seq c) (table c))" for e
  proof -
    from that obtain e0 where e0: "e0 \<in> set (table c)"
      and e: "e = (if fst e0 = (i, s) then (fst e0, (next_seq c, snd (snd e0))) else e0)"
      by (auto simp: restamp_def split: if_splits)
    show ?thesis
    proof (cases "fst e0 = (i, s)")
      case True
      with e show ?thesis by (simp add: seq_of_def word_lt_succ_self[OF assms(2)])
    next
      case False
      with e lt[OF e0] show ?thesis by (simp add: word_less_succ[OF _ assms(2)])
    qed
  qed
  show ?thesis
    using d b assms(1) by (simp add: GetKnown_def Some cache_inv_def map_fst_restamp list_all_iff)
qed

lemma restamp_map_of:
  "map_of (restamp k s t) k' =
     (if k' = k then map_option (\<lambda>v. (s, snd v)) (map_of t k) else map_of t k')"
  by (induction t) (auto simp: restamp_def)

text \<open>
  C10. The sequence numbers of the entries are pairwise different and below \<open>next_seq\<close>:
  the invariant \<open>cache_inv\<close> holds for a new cache and after \<open>Resize\<close> (which clears
  the table and \<open>next_seq\<close> together), and \<open>GetKnown\<close>, \<open>Remember\<close> and \<open>MaybeGC\<close> keep
  it, as long as the 64-bit counter \<open>next_seq\<close> has not reached its last value. A hit
  stamps the entry found, and no other, with the current \<open>next_seq\<close> and increments
  it; \<open>Remember\<close> increments it as well.
\<close>

theorem sequence_numbers_unique:
  "cache_inv StateCache_new \<and> cache_inv (Resize ll ss c0) \<and>
   next_seq (Resize ll ss c0) = 0 \<and>
   (cache_inv c \<and> next_seq c + 1 \<noteq> 0 \<longrightarrow>
      cache_inv (snd (GetKnown input start c)) \<and>
      (\<forall>v. map_of (table c) (input, start) = Some v \<longrightarrow>
         next_seq (snd (GetKnown input start c)) = next_seq c + 1 \<and>
         (\<forall>k. map_of (table (snd (GetKnown input start c))) k =
              (if k = (input, start) then Some (next_seq c, snd v) else map_of (table c) k))) \<and>
      (\<forall>c'. Remember input start result c = Some c' \<longrightarrow>
         cache_inv c' \<and> next_seq c' = next_seq c + 1) \<and>
      (\<forall>c'. MaybeGC c = Some c' \<longrightarrow> cache_inv c' \<and> next_seq c' = next_seq c))"
proof -
  have a: "cache_inv StateCache_new" by (simp add: cache_inv_def StateCache_new_def)
  have b: "cache_inv (Resize ll ss c0)" "next_seq (Resize ll ss c0) = 0"
    by (simp_all add: cache_inv_def Resize_def)
  have c: "next_seq c' = next_seq c + 1" if "Remember input start result c = Some c'" for c'
    using MaybeGC_table[OF that[unfolded Remember_def]] by auto
  have d: "next_seq c' = next_seq c" if "MaybeGC c = Some c'" for c'
    using MaybeGC_table[OF that] by auto
  have e: "next_seq (snd (GetKnown input start c)) = next_seq c + 1 \<and>
         (\<forall>k. map_of (table (snd (GetKnown input start c))) k =
              (if k = (input, start) then Some (next_seq c, snd v) else map_of (table c) k))"
    if "map_of (table c) (input, start) = Some v" for v
    using that by (simp add: GetKnown_def restamp_map_of)
  show ?thesis
    using a b c d e cache_inv_GetKnown cache_inv_Remember cache_inv_MaybeGC by blast
qed

theorem sequence_numbers_unique_witness:
  "cache_inv demo_cache \<and> next_seq demo_cache + 1 \<noteq> 0 \<and>
   cache_inv (snd (GetKnown 0 [1] demo_cache)) \<and>
   next_seq (snd (GetKnown 0 [1] demo_cache)) = 3 \<and>
   map_of (table (snd (GetKnown 0 [1] demo_cache))) (0, [1]) = Some (2, [2]) \<and>
   (\<exists>c'. Remember 2 [1] [4] demo_cache = Some c' \<and> cache_inv c' \<and> next_seq c' = 3 \<and>
      table c' = [((2, [1]), (2, [4]))])"
proof -
  have h: "cache_inv demo_cache \<and> next_seq demo_cache + 1 \<noteq> 0"
    by (simp add: cache_inv_def demo_cache_def seq_of_def)
  have m: "map_of (table demo_cache) (0, [1]) = Some (0, [2])"
    by (simp add: demo_cache_def)
  have r: "Remember 2 [1] [4] demo_cache =
      Some \<lparr>table = [((2, [1]), (2, [4]))],
      limit = 1, count = 1, next_seq = 3, slop = 1, hits = 0, misses = 2\<rparr>"
    by (simp add: Remember_def demo_cache_def MaybeGC_def emplace_def)
  have n: "next_seq demo_cache = 2" by (simp add: demo_cache_def)
  from sequence_numbers_unique[where c = demo_cache and input = 0 and start = "[1]"]
    sequence_numbers_unique[where c = demo_cache and input = 2 and start = "[1]" and result = "[4]"]
    h m r n
  show ?thesis by auto
qed

lemma seq_of_case: "(\<lambda>(k, v). fst v) = seq_of"
  by (auto simp: seq_of_def fun_eq_iff)

lemma sorted_distinct_filter_less:
  fixes xs :: "'a::linorder list"
  assumes "sorted xs" "distinct xs" "k < length xs"
  shows "filter (\<lambda>x. x < xs ! k) xs = take k xs"
  using assms
proof (induction xs arbitrary: k)
  case Nil then show ?case by simp
next
  case (Cons a xs)
  show ?case
  proof (cases k)
    case 0
    with Cons.prems show ?thesis by (auto simp: filter_empty_conv)
  next
    case (Suc j)
    with Cons.prems have "a < xs ! j" by (auto simp: less_le)
    with Cons Suc show ?thesis by auto
  qed
qed

lemma length_filter_sort:
  fixes xs :: "'a::linorder list"
  assumes "distinct xs"
  shows "length (filter P (sort xs)) = length (filter P xs)"
proof -
  have "distinct (sort xs)" using assms by simp
  then show ?thesis using assms by (simp add: distinct_length_filter)
qed

lemma count_filter_below_cut:
  fixes t :: "(Key \<times> Value) list"
  assumes d: "distinct (map seq_of t)" and k: "k < length t"
  shows "length (filter (\<lambda>e. seq_of e < sort (map seq_of t) ! k) t) = k"
proof -
  let ?s = "sort (map seq_of t)"
  have len: "length ?s = length t" by simp
  have "length (filter (\<lambda>e. seq_of e < ?s ! k) t)
        = length (filter (\<lambda>x. x < ?s ! k) (map seq_of t))"
    by (simp add: filter_map comp_def)
  also have "\<dots> = length (filter (\<lambda>x. x < ?s ! k) ?s)"
    using length_filter_sort[OF d] by simp
  also have "\<dots> = length (take k ?s)"
    using sorted_distinct_filter_less[of ?s k] d k by simp
  also have "\<dots> = k" using k by simp
  finally show ?thesis .
qed

lemma MaybeGC_evicts_oldest:
  assumes inv: "cache_inv c" and cnt: "count_ok c" and lim: "limit c \<noteq> 0"
    and nov: "unat (limit c) + unat (slop c) < 2 ^ 64"
    and over: "\<not> count c \<le> limit c + slop c"
  shows "\<exists>c' cut. MaybeGC c = Some c' \<and> count c' = limit c \<and> count_ok c' \<and>
           table c' = filter (\<lambda>e. cut \<le> seq_of e) (table c) \<and>
           (\<forall>e\<in>set (table c). e \<notin> set (table c') \<longrightarrow> seq_of e < cut)"
proof -
  let ?n = "length (table c)"
  let ?l = "unat (limit c)"
  let ?s = "sort (map seq_of (table c))"
  have n: "unat (count c) = ?n" using cnt by (simp add: count_ok_def)
  have sum: "unat (limit c + slop c) = ?l + unat (slop c)"
    using nov by (simp add: unat_word_ariths)
  have gt: "?l + unat (slop c) < ?n"
    using over n sum by (simp add: word_le_nat_alt)
  have l1: "0 < ?l" using lim by (simp add: unat_gt_0)
  have nr: "unat (count c - limit c) = ?n - ?l"
    using gt n by (simp add: unat_sub word_le_nat_alt)
  have k: "?n - ?l < ?n" using l1 gt by simp
  let ?cut = "?s ! (?n - ?l)"
  have d: "distinct (map seq_of (table c))" using inv by (simp add: cache_inv_def)
  have removed: "length (filter (\<lambda>e. seq_of e < ?cut) (table c)) = ?n - ?l"
    using count_filter_below_cut[OF d k] .
  have kept: "length (filter (\<lambda>e. \<not> seq_of e < ?cut) (table c)) = ?l"
    using removed sum_length_filter_compl[of "\<lambda>e. seq_of e < ?cut" "table c"] gt by linarith
  let ?c' = "c\<lparr>table := filter (\<lambda>e. \<not> seq_of e < ?cut) (table c),
               count := count c - of_nat (?n - ?l)\<rparr>"
  have gc: "MaybeGC c = Some ?c'"
    using over nr k removed by (simp add: MaybeGC_def Let_def seq_of_case sweep_eq)
  have "(of_nat (unat (count c - limit c)) :: u64) = count c - limit c" by simp
  then have "(of_nat (?n - ?l) :: u64) = count c - limit c"
    using nr by simp
  then have c': "count ?c' = limit c" by simp
  have ok: "count_ok ?c'" using kept c' by (simp add: count_ok_def)
  have tbl: "table ?c' = filter (\<lambda>e. ?cut \<le> seq_of e) (table c)"
    by (simp add: not_less)
  have gone: "\<forall>e\<in>set (table c). e \<notin> set (table ?c') \<longrightarrow> seq_of e < ?cut"
    by auto
  show ?thesis using gc c' ok tbl gone by blast
qed

lemma count_ok_Resize: "count_ok (Resize ll ss c)"
  by (simp add: count_ok_def Resize_def)

lemma count_ok_GetKnown: "count_ok c \<Longrightarrow> count_ok (snd (GetKnown i s c))"
  by (simp add: count_ok_def GetKnown_def restamp_def split: option.splits)

lemma count_ok_MaybeGC:
  assumes "count_ok c" "MaybeGC c = Some c'"
  shows "count_ok c'"
proof (cases "count c \<le> limit c + slop c")
  case True
  with assms show ?thesis by (simp add: MaybeGC_def)
next
  case False
  define m where "m = sort (map (\<lambda>(k, v). fst v) (table c)) ! unat (count c - limit c)"
  let ?r = "length (filter (\<lambda>e. seq_of e < m) (table c))"
  from False assms(2) have c': "c' = c\<lparr>table := filter (\<lambda>e. \<not> seq_of e < m) (table c),
       count := count c - of_nat ?r\<rparr>"
    by (auto simp: MaybeGC_def Let_def sweep_eq m_def split: if_splits)
  have le: "?r \<le> unat (count c)"
    using assms(1) by (simp add: count_ok_def)
  have "?r < 2 ^ 64"
    using le unsigned_less[of "count c", where 'a = nat] by simp
  then have u: "unat (of_nat ?r :: u64) = ?r"
    by (simp add: unat_of_nat)
  then have "(of_nat ?r :: u64) \<le> count c"
    using le by (simp add: word_le_nat_alt)
  then have "unat (count c - of_nat ?r) = unat (count c) - ?r"
    using u unat_sub[of "of_nat ?r" "count c"] by simp
  moreover have "length (filter (\<lambda>e. \<not> seq_of e < m) (table c)) = length (table c) - ?r"
    using sum_length_filter_compl[of "\<lambda>e. seq_of e < m" "table c"] by linarith
  ultimately show ?thesis using assms(1) c' by (simp add: count_ok_def)
qed

lemma count_ok_Remember_fresh:
  assumes "count_ok c" "map_of (table c) (i, s) = None" "count c + 1 \<noteq> 0"
    and "Remember i s r c = Some c'"
  shows "count_ok c'"
proof -
  have "unat (count c + 1) = unat (count c) + 1"
    using assms(3) unatSuc[of "count c"] by (simp add: add.commute)
  then have "count_ok (c\<lparr>table := emplace (i, s) (next_seq c, r) (table c),
                next_seq := next_seq c + 1, count := count c + 1\<rparr>)"
    using assms(1,2) by (simp add: count_ok_def emplace_def)
  then show ?thesis using assms(4) count_ok_MaybeGC unfolding Remember_def by blast
qed

text \<open>
  C4. With \<open>limit = 0\<close> the claim asks \<open>MaybeGC\<close> to remove every entry. The code
  computes \<open>num_remove = count - limit = count\<close> and reads \<open>seqs[count]\<close>, one past the
  end of a vector of \<open>count\<close> elements: no set of surviving entries is defined. The state
  below is the one \<open>Remember\<close> hands to \<open>MaybeGC\<close> for the first entry after
  \<^verbatim>\<open>ResetCache(0, 0)\<close>. (For \<open>limit \<noteq> 0\<close> the survivors are the \<open>limit\<close> entries with the
  largest sequence numbers: lemma \<open>MaybeGC_evicts_oldest\<close>.)
\<close>

theorem MaybeGC_limit_zero_out_of_range:
  "MaybeGC \<lparr>table = [((0, [1]), (0, [2]))], limit = 0, count = 1, next_seq = 1, slop = 0,
            hits = 0, misses = 1\<rparr> = None"
  by (simp add: MaybeGC_def)

text \<open>
  C5. After \<^verbatim>\<open>Resize(0, 0)\<close> the first \<open>Remember\<close> has \<open>count = 1 > limit + slop = 0\<close>;
  \<open>MaybeGC\<close> then reads \<open>seqs[1]\<close> of a one-element vector, so the operation does not
  end with \<open>count \<le> limit\<close>: its behaviour is undefined.
\<close>

theorem Remember_limit_zero_incomplete:
  "Remember 0 [1] [2] (Resize 0 0 StateCache_new) = None"
  by (simp add: Remember_def Resize_def StateCache_new_def MaybeGC_def emplace_def)

section \<open>Properties of the frontend\<close>

lemma uninitialized_noops:
  assumes "g_wrapper e = None"
  shows "Step K b e = e" "StepFull K b e = e" "GetMemory K e = []"
    "SaveUncompressed K e out = []" "RamChecksum K city e = 0"
    "LoadUncompressed K inp e = e"
    "g_wrapper (ResetCache n s e) = None"
    "g_cache e = None \<Longrightarrow> CachingStep K b e = Some e"
    "g_cache e = None \<Longrightarrow> ResetCache n s e = e"
    "g_cache e = None \<Longrightarrow> PrintCacheStats e = []"
  using assms
  by (simp_all add: Step_def StepFull_def GetMemory_def SaveUncompressed_def RamChecksum_def
      LoadUncompressed_def ResetCache_def CachingStep_def PrintCacheStats_def split: option.splits)

lemma uninitialized_start:
  "g_wrapper (emu_start :: 'c emu) = None" "g_cache (emu_start :: 'c emu) = None"
  "g_wrapper (Shutdown e) = None" "g_cache (Shutdown e) = None"
  "g_wrapper (snd (Initialize None (emu_start :: 'c emu))) = None"
  "g_cache (snd (Initialize None (emu_start :: 'c emu))) = Some StateCache_new"
  by (simp_all add: emu_start_def Shutdown_def Initialize_def)

text \<open>
  C9. While no core is loaded, \<open>Step\<close>, \<open>StepFull\<close>, \<open>GetMemory\<close>, \<open>SaveUncompressed\<close>,
  \<open>RamChecksum\<close> and \<open>LoadUncompressed\<close> behave as claimed (lemma \<open>uninitialized_noops\<close>),
  and so does \<open>CachingStep\<close> while no cache exists. A failed \<^verbatim>\<open>Initialize\<close> leaves the cache
  allocated, though: after \<^verbatim>\<open>ResetCache(0, 0)\<close> the first \<open>CachingStep\<close>, still with no
  core, inserts an entry and \<open>MaybeGC\<close> reads \<open>seqs[1]\<close> of a one-element vector.
\<close>

theorem CachingStep_without_core_undefined:
  "g_wrapper (ResetCache 0 0 (snd (Initialize None (emu_start :: u8 emu)))) = None \<and>
   CachingStep counter_core 0 (ResetCache 0 0 (snd (Initialize None emu_start))) = None"
  by (simp add: emu_start_def Initialize_def ResetCache_def CachingStep_def StateCache_new_def
      Resize_def SaveUncompressed_def GetKnown_def Step_def Remember_def emplace_def MaybeGC_def)

lemma loaded_emu_eq:
  "loaded_emu = \<lparr>g_wrapper = Some \<lparr>core = 0, rom_loaded = True, input_state = [0, 0]\<rparr>,
     g_initialized = True, g_frame_rgba = [], g_cache = Some StateCache_new\<rparr>"
  by (simp add: loaded_emu_def Initialize_def emu_start_def)

lemma Step_cache: "g_cache (Step K b e) = g_cache e"
  by (simp add: Step_def split: option.splits prod.splits)

lemma LoadUncompressed_cache: "g_cache (LoadUncompressed K inp e) = g_cache e"
  by (simp add: LoadUncompressed_def split: option.splits)

lemma cache_count_ok_CachingStep:
  assumes ok: "cache_count_ok e"
    and nw: "\<forall>c. g_cache e = Some c \<longrightarrow> count c + 1 \<noteq> 0"
    and cs: "CachingStep K b e = Some e'"
  shows "cache_count_ok e'"
proof (cases "g_cache e")
  case None
  with cs have "e' = Step K b e" by (simp add: CachingStep_def)
  with None show ?thesis by (simp add: cache_count_ok_def Step_cache)
next
  case (Some c)
  from ok Some have c: "count_ok c" by (simp add: cache_count_ok_def)
  let ?start = "SaveUncompressed K e []"
  show ?thesis
  proof (cases "map_of (table c) (b, ?start)")
    case (Some v)
    with cs \<open>g_cache e = Some c\<close> have
      "e' = LoadUncompressed K (snd v) (e\<lparr>g_cache := Some (snd (GetKnown b ?start c))\<rparr>)"
      by (simp add: CachingStep_def GetKnown_def Let_def)
    then show ?thesis
      using count_ok_GetKnown[OF c, of b ?start]
      by (simp add: cache_count_ok_def LoadUncompressed_cache)
  next
    case None
    let ?c' = "c\<lparr>misses := misses c + 1\<rparr>"
    let ?e1 = "Step K b (e\<lparr>g_cache := Some ?c'\<rparr>)"
    from cs \<open>g_cache e = Some c\<close> None obtain c'' where
      r: "Remember b ?start (SaveUncompressed K ?e1 []) ?c' = Some c''"
      and e': "e' = ?e1\<lparr>g_cache := Some c''\<rparr>"
      by (auto simp: CachingStep_def GetKnown_def Let_def split: option.splits)
    have c': "count_ok ?c'" using c by (simp add: count_ok_def)
    have f: "map_of (table ?c') (b, ?start) = None" using None by simp
    have n: "count ?c' + 1 \<noteq> 0" using nw \<open>g_cache e = Some c\<close> by simp
    from count_ok_Remember_fresh[OF c' f n r] e' show ?thesis
      by (simp add: cache_count_ok_def)
  qed
qed

text \<open>
  C6, as amended. \<open>count\<close> is the number of entries of the table in every state the
  frontend reaches. The equality holds for a new cache and after \<open>Resize\<close>; \<open>GetKnown\<close>,
  \<open>MaybeGC\<close> and a \<open>Remember\<close> of a key that is not in the table keep it, as long as the
  64-bit \<open>count\<close> has not reached its last value. \<open>CachingStep\<close> calls \<open>Remember\<close> only
  after \<open>GetKnown\<close> has missed the same key, so it keeps the equality too, and so do
  \<^verbatim>\<open>Initialize\<close>, \<^verbatim>\<open>Shutdown\<close>, \<open>ResetCache\<close>, \<open>Step\<close> and \<open>LoadUncompressed\<close>.
\<close>

theorem count_is_table_size:
  "count_ok StateCache_new \<and> count_ok (Resize ll ss c0) \<and>
   (count_ok c \<longrightarrow>
      count_ok (snd (GetKnown input start c)) \<and>
      (\<forall>c'. MaybeGC c = Some c' \<longrightarrow> count_ok c') \<and>
      (\<forall>c'. map_of (table c) (input, start) = None \<and> count c + 1 \<noteq> 0 \<and>
            Remember input start result c = Some c' \<longrightarrow> count_ok c')) \<and>
   cache_count_ok (emu_start :: 'c emu) \<and>
   (cache_count_ok e \<longrightarrow>
      cache_count_ok (snd (Initialize loaded e)) \<and> cache_count_ok (Shutdown e) \<and>
      cache_count_ok (ResetCache numstates slp e) \<and> cache_count_ok (Step K b e) \<and>
      cache_count_ok (LoadUncompressed K inp e) \<and>
      (\<forall>e'. (\<forall>c. g_cache e = Some c \<longrightarrow> count c + 1 \<noteq> 0) \<and> CachingStep K b e = Some e' \<longrightarrow>
            cache_count_ok e'))"
proof (intro conjI impI allI)
  show "count_ok StateCache_new" by (simp add: count_ok_def StateCache_new_def)
  show "count_ok (Resize ll ss c0)" by (rule count_ok_Resize)
  show "cache_count_ok (emu_start :: 'c emu)" by (simp add: cache_count_ok_def emu_start_def)
next
  assume "count_ok c"
  then show "count_ok (snd (GetKnown input start c))" by (rule count_ok_GetKnown)
next
  fix c'
  assume "count_ok c" "MaybeGC c = Some c'"
  then show "count_ok c'" by (rule count_ok_MaybeGC)
next
  fix c'
  assume "count_ok c"
    "map_of (table c) (input, start) = None \<and> count c + 1 \<noteq> 0 \<and>
     Remember input start result c = Some c'"
  then show "count_ok c'" using count_ok_Remember_fresh by blast
next
  assume a: "cache_count_ok e"
  have n: "count_ok StateCache_new" by (simp add: count_ok_def StateCache_new_def)
  show "cache_count_ok (snd (Initialize loaded e))"
    using a n by (simp add: Initialize_def cache_count_ok_def split: option.splits)
  show "cache_count_ok (Shutdown e)" by (simp add: Shutdown_def cache_count_ok_def)
  show "cache_count_ok (ResetCache numstates slp e)"
    using a by (simp add: ResetCache_def cache_count_ok_def count_ok_Resize split: option.splits)
  show "cache_count_ok (Step K b e)" using a by (simp add: cache_count_ok_def Step_cache)
  show "cache_count_ok (LoadUncompressed K inp e)"
    using a by (simp add: cache_count_ok_def LoadUncompressed_cache)
next
  fix e'
  assume "cache_count_ok e"
    "(\<forall>c. g_cache e = Some c \<longrightarrow> count c + 1 \<noteq> 0) \<and> CachingStep K b e = Some e'"
  then show "cache_count_ok e'" using cache_count_ok_CachingStep by blast
qed

text \<open>
  The claim as stated fails for a \<open>Remember\<close> whose key is already in the table:
  \<^verbatim>\<open>emplace\<close> inserts nothing and \<open>count\<close> is incremented all the same, so \<open>count = 2\<close>
  with one entry stored.
\<close>

theorem Remember_present_key_count:
  "Remember 0 [1] [2] (Resize 1000 100 StateCache_new) =
     Some \<lparr>table = [((0, [1]), (0, [2]))], limit = 1000, count = 1, next_seq = 1, slop = 100,
           hits = 0, misses = 0\<rparr> \<and>
   count_ok \<lparr>table = [((0, [1]), (0, [2]))], limit = 1000, count = 1, next_seq = 1, slop = 100,
             hits = 0, misses = 0\<rparr> \<and>
   Remember 0 [1] [2]
     \<lparr>table = [((0, [1]), (0, [2]))], limit = 1000, count = 1, next_seq = 1, slop = 100,
      hits = 0, misses = 0\<rparr> =
     Some \<lparr>table = [((0, [1]), (0, [2]))], limit = 1000, count = 2, next_seq = 2, slop = 100,
           hits = 0, misses = 0\<rparr> \<and>
   \<not> count_ok \<lparr>table = [((0, [1]), (0, [2]))], limit = 1000, count = 2, next_seq = 2,
               slop = 100, hits = 0, misses = 0\<rparr>"
  by (simp add: Remember_def Resize_def StateCache_new_def MaybeGC_def emplace_def count_ok_def)

theorem count_is_table_size_witness:
  "count_ok demo_cache \<and> map_of (table demo_cache) (2, [1]) = None \<and>
   count demo_cache + 1 \<noteq> 0 \<and>
   (\<exists>c'. Remember 2 [1] [4] demo_cache = Some c' \<and> count_ok c' \<and> count c' = 1 \<and>
      length (table c') = 1) \<and>
   MaybeGC demo_cache = Some demo_cache \<and>
   count_ok (snd (GetKnown 0 [1] demo_cache)) \<and>
   cache_count_ok (ResetCache 1000 100 loaded_emu) \<and>
   (\<exists>e'. CachingStep counter_core 7 (ResetCache 1000 100 loaded_emu) = Some e' \<and>
      cache_count_ok e' \<and> PrintCacheStats e' = [(1, 1000, 1, 0, 1)])"
proof -
  have h: "count_ok demo_cache" "map_of (table demo_cache) (2, [1]) = None"
    "count demo_cache + 1 \<noteq> 0"
    by (simp_all add: count_ok_def demo_cache_def)
  have r: "Remember 2 [1] [4] demo_cache =
      Some \<lparr>table = [((2, [1]), (2, [4]))],
      limit = 1, count = 1, next_seq = 3, slop = 1, hits = 0, misses = 2\<rparr>"
    by (simp add: Remember_def demo_cache_def MaybeGC_def emplace_def)
  have g: "MaybeGC demo_cache = Some demo_cache"
    by (simp add: MaybeGC_def demo_cache_def)
  have e: "cache_count_ok (ResetCache 1000 100 loaded_emu)"
    "\<forall>c. g_cache (ResetCache 1000 100 loaded_emu) = Some c \<longrightarrow> count c + 1 \<noteq> 0"
    by (simp_all add: cache_count_ok_def count_ok_def loaded_emu_eq ResetCache_def Resize_def)
  have s: "CachingStep counter_core 7 (ResetCache 1000 100 loaded_emu) =
      Some \<lparr>g_wrapper = Some \<lparr>core = 8, rom_loaded = True, input_state = [7, 0]\<rparr>,
            g_initialized = True, g_frame_rgba = [],
            g_cache = Some \<lparr>table = [((7, [0]), (0, [8]))], limit = 1000, count = 1,
                              next_seq = 1, slop = 100, hits = 0, misses = 1\<rparr>\<rparr>"
    unfolding loaded_emu_eq by code_simp
  note T = count_is_table_size[where c = demo_cache and input = 2 and start = "[1]"
      and result = "[4]" and e = "ResetCache 1000 100 loaded_emu" and K = counter_core and b = 7
      and ll = 0 and ss = 0 and ?c0.0 = demo_cache and loaded = None and numstates = 0
      and slp = 0 and inp = "[]"]
  note U = count_is_table_size[where c = demo_cache and input = 0 and start = "[1]"
      and result = "[]" and e = "ResetCache 1000 100 loaded_emu" and K = counter_core and b = 7
      and ll = 0 and ss = 0 and ?c0.0 = demo_cache and loaded = None and numstates = 0
      and slp = 0 and inp = "[]"]
  from T h r have a: "count_ok \<lparr>table = [((2, [1]), (2, [4]))],
      limit = 1, count = 1, next_seq = 3, slop = 1, hits = 0, misses = 2\<rparr>"
    by blast
  from U h(1) have b: "count_ok (snd (GetKnown 0 [1] demo_cache))" by blast
  from T e s have c: "cache_count_ok
      \<lparr>g_wrapper = Some \<lparr>core = 8 :: u8, rom_loaded = True, input_state = [7, 0]\<rparr>,
       g_initialized = True, g_frame_rgba = [],
       g_cache = Some \<lparr>table = [((7, [0]), (0, [8]))], limit = 1000, count = 1,
                         next_seq = 1, slop = 100, hits = 0, misses = 1\<rparr>\<rparr>"
    by blast
  from a b c h r g e(1) s show ?thesis
    by (simp add: PrintCacheStats_def)
qed

section \<open>The cache is transparent\<close>

lemma core_okD:
  assumes "core_ok K"
  shows "\<exists>bs. ser K c = Some bs \<and> bs \<noteq> []"
    and "ser K c = ser K c' \<Longrightarrow> ser K (fst (fn_run K pads c)) = ser K (fst (fn_run K pads c'))"
    and "ser K c = Some bs \<Longrightarrow> ser K (snd (fn_unserialize K bs c')) = Some bs"
    and "ser K c = ser K c' \<Longrightarrow> GetRAM K \<lparr>core = c, rom_loaded = True, input_state = pads\<rparr> =
        GetRAM K \<lparr>core = c', rom_loaded = True, input_state = pads'\<rparr>"
  using assms unfolding core_ok_def by blast+

lemma SaveUncompressed_loaded:
  assumes "g_wrapper e = Some w" "rom_loaded w" "ser K (core w) = Some bs"
  shows "SaveUncompressed K e [] = bs"
  using assms
  by (simp add: SaveUncompressed_def SaveState_def GetStateSize_def resize_def ser_def)

lemma Step_loaded:
  assumes "g_wrapper e = Some w" "rom_loaded w"
  shows "g_wrapper (Step K b e) =
           Some (w\<lparr>input_state := (input_state w)[0 := b],
                   core := fst (fn_run K ((input_state w)[0 := b]) (core w))\<rparr>)"
    and "g_cache (Step K b e) = g_cache e"
  using assms
  by (auto simp: Step_def Run_def SetInput_def split: prod.splits)

lemma LoadUncompressed_loaded:
  assumes "g_wrapper e = Some w" "rom_loaded w" "bs \<noteq> []"
  shows "g_wrapper (LoadUncompressed K bs e) =
           Some (w\<lparr>core := snd (fn_unserialize K bs (core w))\<rparr>)"
    and "g_cache (LoadUncompressed K bs e) = g_cache e"
  using assms
  by (auto simp: LoadUncompressed_def LoadState_def split: prod.splits)

lemma GetRAM_cong:
  assumes "core_ok K" "rom_loaded w" "rom_loaded w'" "ser K (core w) = ser K (core w')"
  shows "GetRAM K w = GetRAM K w'"
proof -
  have "GetRAM K w = GetRAM K \<lparr>core = core w, rom_loaded = True, input_state = input_state w\<rparr>"
    using assms(2) by (simp add: GetRAM_def Let_def split: option.splits)
  moreover have "GetRAM K w' = GetRAM K \<lparr>core = core w', rom_loaded = True, input_state = input_state w'\<rparr>"
    using assms(3) by (simp add: GetRAM_def Let_def split: option.splits)
  ultimately show ?thesis using core_okD(4)[OF assms(1,4)] by simp
qed


lemma same_machine_refl: "g_wrapper e = Some w \<Longrightarrow> rom_loaded w \<Longrightarrow> same_machine K e e"
  by (simp add: same_machine_def)




lemma same_machine_obs:
  assumes "core_ok K" "same_machine K e e'"
  shows "SaveUncompressed K e [] = SaveUncompressed K e' []" "GetMemory K e = GetMemory K e'"
proof -
  from assms(2) obtain w w' where w: "g_wrapper e = Some w" "g_wrapper e' = Some w'"
    "rom_loaded w" "rom_loaded w'" "ser K (core w) = ser K (core w')"
    by (auto simp: same_machine_def split: option.splits)
  from core_okD(1)[OF assms(1), of "core w"] obtain bs where bs: "ser K (core w) = Some bs" by blast
  show "SaveUncompressed K e [] = SaveUncompressed K e' []"
    using SaveUncompressed_loaded[OF w(1,3) bs] SaveUncompressed_loaded[OF w(2,4)] bs w(5) by simp
  show "GetMemory K e = GetMemory K e'"
    using GetRAM_cong[OF assms(1) w(3,4,5)] w(1,2) by (simp add: GetMemory_def)
qed


lemma entry_sound_pads [simp]: "entry_sound K (pads[0 := x]) e = entry_sound K pads e"
  by (simp add: entry_sound_def)

lemma entry_sound_restamp:
  assumes "list_all (entry_sound K pads) t"
  shows "list_all (entry_sound K pads) (restamp k s t)"
  using assms by (induction t) (auto simp: restamp_def entry_sound_def)

lemma CachingStep_transparent:
  assumes ok: "core_ok K" and eok: "emu_ok K e" and cs: "CachingStep K b e = Some e'"
  shows "same_machine K e' (Step K b e)" and "emu_ok K e'"
proof -
  from eok obtain w where w: "g_wrapper e = Some w" "rom_loaded w"
    by (auto simp: emu_ok_def split: option.splits)
  from core_okD(1)[OF ok, of "core w"] obtain bs where bs: "ser K (core w) = Some bs" "bs \<noteq> []"
    by blast
  have start: "SaveUncompressed K e [] = bs"
    using SaveUncompressed_loaded[OF w bs(1)] .
  let ?pads = "(input_state w)[0 := b]"
  let ?c1 = "fst (fn_run K ?pads (core w))"
  let ?w1 = "w\<lparr>input_state := ?pads, core := ?c1\<rparr>"
  have step: "g_wrapper (Step K b e) = Some ?w1" using Step_loaded(1)[OF w] .
  from core_okD(1)[OF ok, of ?c1] obtain post where post: "ser K ?c1 = Some post" "post \<noteq> []"
    by blast
  have "same_machine K e' (Step K b e) \<and> emu_ok K e'"
  proof (cases "g_cache e")
    case None
    then have "e' = Step K b e" using cs by (simp add: CachingStep_def)
    then show ?thesis
      using step w None Step_loaded(2)[OF w, of K b]
      by (simp add: same_machine_def emu_ok_def)
  next
    case (Some c)
    from eok w Some have snd_c: "distinct (map fst (table c))"
      "list_all (entry_sound K (input_state w)) (table c)"
      by (simp_all add: emu_ok_def)
    show ?thesis
    proof (cases "map_of (table c) (b, bs)")
      case hit: (Some v)
      let ?c' = "c\<lparr>hits := hits c + 1, table := restamp (b, bs) (next_seq c) (table c),
                   next_seq := next_seq c + 1\<rparr>"
      have e': "e' = LoadUncompressed K (snd v) (e\<lparr>g_cache := Some ?c'\<rparr>)"
        using cs Some hit start by (simp add: CachingStep_def GetKnown_def)
      have "((b, bs), v) \<in> set (table c)" using hit by (rule map_of_SomeD)
      then have "entry_sound K (input_state w) ((b, bs), v)"
        using snd_c(2) by (simp add: list_all_iff)
      then have v: "ser K ?c1 = Some (snd v)"
        using bs(1) by (simp add: entry_sound_def)
      then have vne: "snd v \<noteq> []" using post by simp
      have we': "g_wrapper e' = Some (w\<lparr>core := snd (fn_unserialize K (snd v) (core w))\<rparr>)"
        and ce': "g_cache e' = Some ?c'"
        using LoadUncompressed_loaded[of "e\<lparr>g_cache := Some ?c'\<rparr>" w "snd v" K] w vne e'
        by simp_all
      have rt: "ser K (snd (fn_unserialize K (snd v) (core w))) = Some (snd v)"
        using core_okD(3)[OF ok v] .
      have "same_machine K e' (Step K b e)"
        using we' step w rt v by (simp add: same_machine_def)
      moreover have "emu_ok K e'"
        using we' ce' w snd_c entry_sound_restamp[OF snd_c(2)]
        by (simp add: emu_ok_def map_fst_restamp)
      ultimately show ?thesis ..
    next
      case miss: None
      let ?c' = "c\<lparr>misses := misses c + 1\<rparr>"
      let ?e1 = "Step K b (e\<lparr>g_cache := Some ?c'\<rparr>)"
      have w1: "g_wrapper ?e1 = Some ?w1"
        using Step_loaded(1)[of "e\<lparr>g_cache := Some ?c'\<rparr>" w K b] w by simp
      have res: "SaveUncompressed K ?e1 [] = post"
        using SaveUncompressed_loaded[OF w1 _ ] w post by simp
      from cs Some miss start res obtain c'' where
        rem: "Remember b bs post ?c' = Some c''" and e': "e' = ?e1\<lparr>g_cache := Some c''\<rparr>"
        by (auto simp: CachingStep_def GetKnown_def Let_def split: option.splits)
      from MaybeGC_table[OF rem[unfolded Remember_def]] obtain P where
        tbl: "table c'' = filter P (emplace (b, bs) (next_seq c, post) (table c))"
        by auto
      have emp: "emplace (b, bs) (next_seq c, post) (table c) = table c @ [((b, bs), (next_seq c, post))]"
        using miss by (simp add: emplace_def)
      have fresh: "(b, bs) \<notin> fst ` set (table c)"
        using miss by (simp add: map_of_eq_None_iff)
      have new_sound: "entry_sound K (input_state w) ((b, bs), (next_seq c, post))"
        unfolding entry_sound_def
      proof (intro allI impI)
        fix st assume "ser K st = Some (snd (fst ((b, bs), next_seq c, post)))"
        then have "ser K st = ser K (core w)" using bs by simp
        from core_okD(2)[OF ok this, of ?pads] post
        show "ser K (fst (fn_run K ((input_state w)[0 := fst (fst ((b, bs), next_seq c, post))]) st))
              = Some (snd (snd ((b, bs), next_seq c, post)))" by simp
      qed
      have "same_machine K e' (Step K b e)"
        using e' w1 step w by (simp add: same_machine_def)
      moreover have "emu_ok K e'"
        using e' w1 w tbl emp fresh snd_c new_sound
        by (auto simp: emu_ok_def distinct_map_filter list_all_iff)
      ultimately show ?thesis ..
    qed
  qed
  then show "same_machine K e' (Step K b e)" and "emu_ok K e'" by simp_all
qed






lemma emu_ok_pads:
  assumes "emu_ok K e1" "g_wrapper e1 = Some w1" "g_wrapper e2 = Some w2" "rom_loaded w2"
    "input_state w2 = input_state w1" "g_cache e2 = g_cache e1"
  shows "emu_ok K e2"
  using assms by (auto simp: emu_ok_def split: option.splits)





lemma table_extends_restamp: "table_extends t (restamp k s t)"
  by (auto simp: table_extends_def restamp_map_of)

lemma table_extends_append:
  assumes "map_of t k = None"
  shows "table_extends t (t @ [(k, v)])"
  by (auto simp: table_extends_def map_add_def split: option.splits)


lemma room_no_gc:
  fixes c :: StateCache
  assumes "unat (count c) + Suc n \<le> unat (limit c) + unat (slop c)"
    "unat (limit c) + unat (slop c) < 2 ^ 64"
  shows "count c + 1 \<le> limit c + slop c" "unat (count c + 1) = Suc (unat (count c))"
proof -
  have a: "unat (limit c + slop c) = unat (limit c) + unat (slop c)"
    using assms(2) by (simp add: unat_word_ariths)
  have "unat (count c) + 1 < 2 ^ 64" using assms by linarith
  then show b: "unat (count c + 1) = Suc (unat (count c))"
    by (simp add: unat_word_ariths)
  show "count c + 1 \<le> limit c + slop c"
    using a b assms(1) by (simp add: word_le_nat_alt)
qed

lemma CachingStep_room:
  assumes ok: "core_ok K" and eok: "emu_ok K e" and room: "has_room (Suc n) e"
  shows "\<exists>e'. CachingStep K b e = Some e' \<and> has_room n e' \<and>
           table_extends (cache_table e) (cache_table e') \<and>
           (\<exists>s. map_of (cache_table e') (b, SaveUncompressed K e []) =
                  Some (s, SaveUncompressed K e' []))"
proof -
  from eok obtain w where w: "g_wrapper e = Some w" "rom_loaded w"
    by (auto simp: emu_ok_def split: option.splits)
  from room obtain c where c: "g_cache e = Some c"
    and r: "unat (count c) + Suc n \<le> unat (limit c) + unat (slop c)"
           "unat (limit c) + unat (slop c) < 2 ^ 64"
    by (auto simp: has_room_def split: option.splits)
  from core_okD(1)[OF ok, of "core w"] obtain bs where bs: "ser K (core w) = Some bs" "bs \<noteq> []"
    by blast
  have start: "SaveUncompressed K e [] = bs"
    using SaveUncompressed_loaded[OF w bs(1)] .
  let ?pads = "(input_state w)[0 := b]"
  let ?c1 = "fst (fn_run K ?pads (core w))"
  let ?w1 = "w\<lparr>input_state := ?pads, core := ?c1\<rparr>"
  from core_okD(1)[OF ok, of ?c1] obtain post where post: "ser K ?c1 = Some post" "post \<noteq> []"
    by blast
  from eok w c have snd_c: "list_all (entry_sound K (input_state w)) (table c)"
    by (simp add: emu_ok_def)
  show ?thesis
  proof (cases "map_of (table c) (b, bs)")
    case hit: (Some v)
    let ?c' = "c\<lparr>hits := hits c + 1, table := restamp (b, bs) (next_seq c) (table c),
                 next_seq := next_seq c + 1\<rparr>"
    let ?e' = "LoadUncompressed K (snd v) (e\<lparr>g_cache := Some ?c'\<rparr>)"
    have cs: "CachingStep K b e = Some ?e'"
      using c hit start by (simp add: CachingStep_def GetKnown_def)
    have "((b, bs), v) \<in> set (table c)" using hit by (rule map_of_SomeD)
    then have "entry_sound K (input_state w) ((b, bs), v)"
      using snd_c by (simp add: list_all_iff)
    then have v: "ser K ?c1 = Some (snd v)"
      using bs(1) by (simp add: entry_sound_def)
    then have vne: "snd v \<noteq> []" using post by simp
    have we': "g_wrapper ?e' = Some (w\<lparr>core := snd (fn_unserialize K (snd v) (core w))\<rparr>)"
      and ce': "g_cache ?e' = Some ?c'"
      using LoadUncompressed_loaded[of "e\<lparr>g_cache := Some ?c'\<rparr>" w "snd v" K] w vne
      by simp_all
    have rt: "ser K (snd (fn_unserialize K (snd v) (core w))) = Some (snd v)"
      using core_okD(3)[OF ok v] .
    have s': "SaveUncompressed K ?e' [] = snd v"
      using SaveUncompressed_loaded[OF we' _ ] w rt by simp
    have "has_room n ?e'" using ce' r by (simp add: has_room_def)
    moreover have "table_extends (cache_table e) (cache_table ?e')"
      using c ce' by (simp add: cache_table_def table_extends_restamp)
    moreover have "map_of (cache_table ?e') (b, SaveUncompressed K e []) =
                  Some (next_seq c, SaveUncompressed K ?e' [])"
      using ce' start s' hit by (simp add: cache_table_def restamp_map_of)
    ultimately show ?thesis using cs by blast
  next
    case miss: None
    let ?c' = "c\<lparr>misses := misses c + 1\<rparr>"
    let ?e1 = "Step K b (e\<lparr>g_cache := Some ?c'\<rparr>)"
    have w1: "g_wrapper ?e1 = Some ?w1"
      using Step_loaded(1)[of "e\<lparr>g_cache := Some ?c'\<rparr>" w K b] w by simp
    have res: "SaveUncompressed K ?e1 [] = post"
      using SaveUncompressed_loaded[OF w1 _ ] w post by simp
    let ?c'' = "?c'\<lparr>table := table c @ [((b, bs), (next_seq c, post))],
                  next_seq := next_seq c + 1, count := count c + 1\<rparr>"
    have rem: "Remember b bs post ?c' = Some ?c''"
      using room_no_gc(1)[OF r] miss by (simp add: Remember_def MaybeGC_def emplace_def)
    let ?e' = "?e1\<lparr>g_cache := Some ?c''\<rparr>"
    have cs: "CachingStep K b e = Some ?e'"
      using c miss start res rem by (simp add: CachingStep_def GetKnown_def Let_def)
    have s': "SaveUncompressed K ?e' [] = post"
      using res by (simp add: SaveUncompressed_def)
    have "has_room n ?e'"
      using r room_no_gc(2)[OF r] by (simp add: has_room_def)
    moreover have "table_extends (cache_table e) (cache_table ?e')"
      using c miss by (simp add: cache_table_def table_extends_append)
    moreover have "map_of (cache_table ?e') (b, SaveUncompressed K e []) =
                  Some (next_seq c, SaveUncompressed K ?e' [])"
      using start s' miss by (simp add: cache_table_def map_add_def)
    ultimately show ?thesis using cs by blast
  qed
qed





lemma core_ok_counter: "core_ok counter_core"
  by (simp add: core_ok_def ser_def counter_core_def GetRAM_def)





section \<open>Compressed states round-trip\<close>

lemma get_put_u32: "get_u32 (put_u32 n @ z) = of_nat n"
  unfolding get_u32_def put_u32_def Let_def
  apply simp
  apply (rule bit_word_eqI)
  subgoal for k
    apply (cases "k < 8"; cases "k < 16"; cases "k < 24")
           apply (auto simp: bit_simps)
    done
  done

lemma length_put_u32 [simp]: "length (put_u32 n) = 4"
  by (simp add: put_u32_def Let_def)

lemma fold_update_nth:
  fixes f :: "nat \<Rightarrow> 'a \<Rightarrow> 'a"
  assumes "n \<le> length r"
  shows "length (fold (\<lambda>i r. r[i := f i (r ! i)]) [0..<n] r) = length r \<and>
         (\<forall>i < length r. fold (\<lambda>i r. r[i := f i (r ! i)]) [0..<n] r ! i =
            (if i < n then f i (r ! i) else r ! i))"
  using assms
proof (induction n)
  case 0 then show ?case by simp
next
  case (Suc n)
  then show ?case by (auto simp: nth_list_update less_Suc_eq)
qed

lemma sub_basis_length [simp]: "length (sub_basis raw B) = length raw"
proof (cases B)
  case None then show ?thesis by (simp add: sub_basis_def)
next
  case (Some b)
  show ?thesis
    using fold_update_nth[of "min (length b) (length raw)" raw "\<lambda>i x. x - b ! i"]
    by (simp add: sub_basis_def Some)
qed

lemma fold_add_sub:
  fixes raw b :: bytes
  assumes n: "n \<le> length raw"
  shows "fold (\<lambda>i r. r[i := r ! i + b ! i]) [0..<n]
           (fold (\<lambda>i r. r[i := r ! i - b ! i]) [0..<n] raw) = raw"
proof -
  let ?s = "fold (\<lambda>i r. r[i := r ! i - b ! i]) [0..<n] raw"
  let ?a = "fold (\<lambda>i r. r[i := r ! i + b ! i]) [0..<n] ?s"
  note s = fold_update_nth[OF n, of "\<lambda>i x. x - b ! i"]
  have ls: "length ?s = length raw" using s by simp
  then have n': "n \<le> length ?s" using n by simp
  note a = fold_update_nth[OF n', of "\<lambda>i x. x + b ! i"]
  have la: "length ?a = length raw" using a ls by simp
  show ?thesis
  proof (rule nth_equalityI)
    show "length ?a = length raw" by (rule la)
    fix i assume "i < length ?a"
    then have i: "i < length raw" using la by simp
    then have "?a ! i = (if i < n then ?s ! i + b ! i else ?s ! i)"
      using a ls by simp
    also have "\<dots> = raw ! i" using s i by simp
    finally show "?a ! i = raw ! i" .
  qed
qed

lemma add_sub_basis: "add_basis (sub_basis raw B) B = raw"
proof (cases B)
  case None then show ?thesis by (simp add: sub_basis_def add_basis_def)
next
  case (Some b)
  have "min (length b) (length raw) \<le> length raw" by simp
  from fold_add_sub[OF this, of b] fold_update_nth[OF this, of "\<lambda>i x. x - b ! i"]
  show ?thesis by (simp add: sub_basis_def add_basis_def Some)
qed

lemma saved_roundtrip:
  assumes z: "inflate_inverts_deflate Z" and len: "length (SaveUncompressed K e []) < 2 ^ 32"
  shows "\<exists>saved. SaveEx Z K e B = Some saved \<and>
           LoadEx Z K saved B e' = Some (LoadUncompressed K (SaveUncompressed K e []) e')"
proof -
  let ?S = "SaveUncompressed K e []"
  let ?raw = "sub_basis ?S B"
  from z obtain c where c: "compress2 Z ?raw = Some c" "uncompress Z (length ?raw) c = Some ?raw"
    unfolding inflate_inverts_deflate_def by blast
  let ?saved = "put_u32 (length ?raw) @ c"
  have sv: "SaveEx Z K e B = Some ?saved" using c(1) by (simp add: SaveEx_def)
  have "unat (of_nat (length ?raw) :: u32) = length ?raw"
    using len by (simp add: unat_of_nat)
  then have hdr: "unat (get_u32 ?saved) = length ?raw" by (simp add: get_put_u32)
  have "LoadEx Z K ?saved B e' = Some (LoadUncompressed K (add_basis ?raw B) e')"
    using hdr c(2) by (simp add: LoadEx_def)
  then show ?thesis using sv add_sub_basis by simp
qed


lemma restore_state:
  assumes ok: "core_ok K"
    and e: "g_wrapper e = Some w" "rom_loaded w"
    and e': "g_wrapper e' = Some w'" "rom_loaded w'"
  shows "SaveUncompressed K (LoadUncompressed K (SaveUncompressed K e []) e') [] =
           SaveUncompressed K e []"
    and "GetMemory K (LoadUncompressed K (SaveUncompressed K e []) e') = GetMemory K e"
proof -
  from core_okD(1)[OF ok, of "core w"] obtain bs where bs: "ser K (core w) = Some bs" "bs \<noteq> []"
    by blast
  have s: "SaveUncompressed K e [] = bs" using SaveUncompressed_loaded[OF e bs(1)] .
  let ?w2 = "w'\<lparr>core := snd (fn_unserialize K bs (core w'))\<rparr>"
  have l: "g_wrapper (LoadUncompressed K bs e') = Some ?w2"
    using LoadUncompressed_loaded(1)[OF e' bs(2)] .
  have rt: "ser K (core ?w2) = Some bs"
    using core_okD(3)[OF ok bs(1)] by simp
  show "SaveUncompressed K (LoadUncompressed K (SaveUncompressed K e []) e') [] =
           SaveUncompressed K e []"
    using SaveUncompressed_loaded[OF l _ rt] e' s by simp
  have "GetRAM K ?w2 = GetRAM K w"
    using GetRAM_cong[OF ok, of ?w2 w] e e' rt bs by simp
  then show "GetMemory K (LoadUncompressed K (SaveUncompressed K e []) e') = GetMemory K e"
    using s l e by (simp add: GetMemory_def)
qed

text \<open>
  C2. If inflate inverts deflate, then for every state of the frontend and every basis
  (or none) \<open>SaveEx\<close> succeeds and \<open>LoadEx\<close> of its output, with the same basis, from any
  later state \<open>e'\<close>, does what \<open>LoadUncompressed\<close> does with the raw state: the wrapping
  subtraction and addition cancel over the first \<open>min(|B|, |s|)\<close> bytes. \<open>Save\<close> and \<open>Load\<close>
  are the case of no basis. With a core that restores what it serialised, the state
  and the RAM are those at the time of saving. The header holds the size in 32 bits,
  so the state is shorter than \<open>2 ^ 32\<close> bytes.
\<close>

theorem compressed_state_roundtrip:
  assumes z: "inflate_inverts_deflate Z" and len: "length (SaveUncompressed K e []) < 2 ^ 32"
  shows "(\<exists>saved. SaveEx Z K e B = Some saved \<and>
            LoadEx Z K saved B e' = Some (LoadUncompressed K (SaveUncompressed K e []) e')) \<and>
         (\<exists>saved. Save Z K e = Some saved \<and>
            Load Z K saved e' = Some (LoadUncompressed K (SaveUncompressed K e []) e')) \<and>
         (core_ok K \<and> emu_ok K e \<and> emu_ok K e' \<longrightarrow>
            (\<exists>saved e''. SaveEx Z K e B = Some saved \<and> LoadEx Z K saved B e' = Some e'' \<and>
               SaveUncompressed K e'' [] = SaveUncompressed K e [] \<and>
               GetMemory K e'' = GetMemory K e))"
proof (intro conjI impI)
  show a: "\<exists>saved. SaveEx Z K e B = Some saved \<and>
            LoadEx Z K saved B e' = Some (LoadUncompressed K (SaveUncompressed K e []) e')"
    using saved_roundtrip[OF z len] .
  show "\<exists>saved. Save Z K e = Some saved \<and>
            Load Z K saved e' = Some (LoadUncompressed K (SaveUncompressed K e []) e')"
    using saved_roundtrip[OF z len, of None] by (simp add: Save_def Load_def)
  assume h: "core_ok K \<and> emu_ok K e \<and> emu_ok K e'"
  then obtain w w' where w: "g_wrapper e = Some w" "rom_loaded w"
    "g_wrapper e' = Some w'" "rom_loaded w'"
    by (auto simp: emu_ok_def split: option.splits)
  from restore_state[OF _ w] h a
  show "\<exists>saved e''. SaveEx Z K e B = Some saved \<and> LoadEx Z K saved B e' = Some e'' \<and>
               SaveUncompressed K e'' [] = SaveUncompressed K e [] \<and>
               GetMemory K e'' = GetMemory K e"
    by auto
qed

lemma store_zlib_ok: "inflate_inverts_deflate store_zlib"
  by (simp add: inflate_inverts_deflate_def store_zlib_def)

lemma emu_ok_counter_steps:
  "emu_ok counter_core (Step counter_core 5 loaded_emu)"
  "emu_ok counter_core (Step counter_core 9 (Step counter_core 5 loaded_emu))"
  by (simp_all add: emu_ok_def loaded_emu_eq Step_def Run_def SetInput_def counter_core_def
      StateCache_new_def)

theorem compressed_state_roundtrip_witness:
  "inflate_inverts_deflate store_zlib \<and>
   length (SaveUncompressed counter_core (Step counter_core 5 loaded_emu) []) < 2 ^ 32 \<and>
   core_ok counter_core \<and> emu_ok counter_core (Step counter_core 5 loaded_emu) \<and>
   emu_ok counter_core (Step counter_core 9 (Step counter_core 5 loaded_emu)) \<and>
   SaveUncompressed counter_core (Step counter_core 5 loaded_emu) [] = [6] \<and>
   SaveEx store_zlib counter_core (Step counter_core 5 loaded_emu) (Some [200, 3]) =
     Some [1, 0, 0, 0, 62] \<and>
   (\<exists>e''. LoadEx store_zlib counter_core [1, 0, 0, 0, 62] (Some [200, 3])
             (Step counter_core 9 (Step counter_core 5 loaded_emu)) = Some e'' \<and>
          SaveUncompressed counter_core e'' [] = [6] \<and> GetMemory counter_core e'' = [6])"
proof -
  let ?e = "Step counter_core 5 loaded_emu"
  let ?e' = "Step counter_core 9 ?e"
  have z: "inflate_inverts_deflate store_zlib" by (rule store_zlib_ok)
  have s: "SaveUncompressed counter_core ?e [] = [6]" by code_simp
  have len: "length (SaveUncompressed counter_core ?e []) < 2 ^ 32" using s by simp
  have sv: "SaveEx store_zlib counter_core ?e (Some [200, 3]) = Some [1, 0, 0, 0, 62]"
    by code_simp
  have m: "GetMemory counter_core ?e = [6]" by code_simp
  note T = compressed_state_roundtrip[OF z len, of "Some [200, 3]" ?e']
  from T core_ok_counter emu_ok_counter_steps sv s m
  have "\<exists>e''. LoadEx store_zlib counter_core [1, 0, 0, 0, 62] (Some [200, 3]) ?e' = Some e'' \<and>
          SaveUncompressed counter_core e'' [] = [6] \<and> GetMemory counter_core e'' = [6]"
    by auto
  then show ?thesis
    using z len core_ok_counter emu_ok_counter_steps s sv by blast
qed

section \<open>Properties of the search loop\<close>

lemma fast_forward_eq:
  "fast_forward K sol start e mv =
     (start + length (takeWhile (\<lambda>b. b = 0) (drop start sol)),
      fold (Step K) (takeWhile (\<lambda>b. b = 0) (drop start sol) @
                     take 1 (dropWhile (\<lambda>b. b = 0) (drop start sol))) e,
      mv @ takeWhile (\<lambda>b. b = 0) (drop start sol) @
           take 1 (dropWhile (\<lambda>b. b = 0) (drop start sol)))"
proof (induction K sol start e mv rule: fast_forward.induct)
  case (1 K sol start e mv)
  show ?case
  proof (cases "start < length sol")
    case False
    then show ?thesis by (subst fast_forward.simps) simp
  next
    case True
    then have d: "drop start sol = sol ! start # drop (Suc start) sol"
      by (simp add: Cons_nth_drop_Suc)
    show ?thesis
    proof (cases "sol ! start = 0")
      case z: True
      from "1.IH"[OF True refl refl] z
      have ih: "fast_forward K sol (start + 1) (Step K (sol ! start) e) (mv @ [sol ! start]) =
        (start + 1 + length (takeWhile (\<lambda>b. b = 0) (drop (start + 1) sol)),
         fold (Step K) (takeWhile (\<lambda>b. b = 0) (drop (start + 1) sol) @
                     take 1 (dropWhile (\<lambda>b. b = 0) (drop (start + 1) sol))) (Step K (sol ! start) e),
         (mv @ [sol ! start]) @ takeWhile (\<lambda>b. b = 0) (drop (start + 1) sol) @
           take 1 (dropWhile (\<lambda>b. b = 0) (drop (start + 1) sol)))"
        by simp
      show ?thesis
        apply (subst fast_forward.simps)
        using ih z True
        apply (simp add: d Let_def del: fast_forward.simps)
        done
    next
      case nz: False
      show ?thesis
        by (subst fast_forward.simps) (simp add: True nz d Let_def del: fast_forward.simps)
    qed
  qed
qed

text \<open>
  C7, as amended. After the constructor the movie is the leading zero bytes of the input
  movie followed by its first non-zero byte, when there is one; exactly these bytes
  have been stepped, in this order, after \<^verbatim>\<open>ResetCache(100000, 10000)\<close>; and the number
  printed is the number of leading zeroes.
\<close>

theorem fast_forward_movie:
  "PlayFun_new K motifs sol e =
     (\<lparr>motifvec = motifs, solution = sol,
       movie = takeWhile (\<lambda>b. b = 0) sol @ take 1 (dropWhile (\<lambda>b. b = 0) sol),
       recent_futures = [], avoid_depths = [20, 75], seek_depths = [30, 30, 50],
       motif_scores = [], motif_uses = 0\<rparr>,
      fold (Step K) (takeWhile (\<lambda>b. b = 0) sol @ take 1 (dropWhile (\<lambda>b. b = 0) sol))
        (ResetCache 100000 10000 e),
      length (takeWhile (\<lambda>b. b = 0) sol))"
  by (simp add: PlayFun_new_def fast_forward_eq del: fast_forward.simps)

text \<open>
  The claim as stated fails on the input movie \<open>[0, 0, 5, 7]\<close>: the movie is \<open>[0, 0, 5]\<close>,
  not the leading zeroes \<open>[0, 0]\<close>, and the byte \<open>5\<close> has been stepped too (the counter
  machine stands at \<open>8\<close>; after the two zeroes alone it would stand at \<open>2\<close>).
\<close>

theorem fast_forward_steps_first_keypress:
  "movie (fst (PlayFun_new counter_core [] [0, 0, 5, 7] loaded_emu)) = [0, 0, 5] \<and>
   takeWhile (\<lambda>b. b = 0) [0, 0, 5, 7 :: u8] = [0, 0] \<and>
   GetMemory counter_core (fst (snd (PlayFun_new counter_core [] [0, 0, 5, 7] loaded_emu))) = [8] \<and>
   GetMemory counter_core (fold (Step counter_core) [0, 0] (ResetCache 100000 10000 loaded_emu)) = [2]"
  by code_simp

lemma avoid_total_simps:
  "avoid_total [] tot = tot"
  "avoid_total (((i, d, x), s) # xs) tot =
     avoid_total xs (if i \<noteq> 0 \<or> d \<noteq> 0 \<or> x \<noteq> 0 then min tot s else s)"
  "avoid_total (xs @ ys) tot = avoid_total ys (avoid_total xs tot)"
  by (simp_all add: avoid_total_def)

lemma seek_total_simps:
  "seek_total [] tot = tot"
  "seek_total ((i, s) # xs) tot = seek_total xs (if i \<noteq> 0 then max tot s else s)"
  by (simp_all add: seek_total_def)

lemma scored_simps:
  "scored sc base [] = []"
  "scored sc base ((t, m) # ms) = (t, sc base m) # scored sc base ms"
  "scored sc base (ms @ ms') = scored sc base ms @ scored sc base ms'"
  by (simp_all add: scored_def)

lemma avoid_motif_mems_eq:
  "avoid_motif K sc base i d x m (e, tot) =
     (case avoid_motif_mems K i d x m e of
        None \<Rightarrow> None
      | Some (e', ms) \<Rightarrow> Some (e', avoid_total (scored sc base ms) tot))"
proof (induction m arbitrary: x e tot)
  case Nil
  show ?case by (simp add: avoid_total_simps scored_simps)
next
  case (Cons b m)
  show ?case
    by (simp add: Cons.IH Let_def avoid_total_simps scored_simps split: option.splits)
qed

lemma avoid_trial_mems_eq:
  "avoid_trial K sc rw base i n d (e, r, tot) =
     (case avoid_trial_mems K rw i n d (e, r) of
        None \<Rightarrow> None
      | Some (e', r', ms) \<Rightarrow> Some (e', r', avoid_total (scored sc base ms) tot))"
proof (induction n arbitrary: d e r tot)
  case 0
  show ?case by (simp add: avoid_total_simps scored_simps)
next
  case (Suc n)
  show ?case
    by (simp add: Suc.IH avoid_motif_mems_eq avoid_total_simps scored_simps
        split: option.splits prod.splits)
qed

lemma avoid_trials_mems_eq:
  "avoid_trials K sc rw depths base bs is (e, r, tot) =
     (case avoid_trials_mems K rw depths bs is (e, r) of
        None \<Rightarrow> None
      | Some (e', r', ms) \<Rightarrow> Some (e', r', avoid_total (scored sc base ms) tot))"
proof (induction "is" arbitrary: e r tot)
  case Nil
  show ?case by (simp add: avoid_total_simps scored_simps)
next
  case (Cons i "is")
  show ?case
    by (simp add: Cons.IH avoid_trial_mems_eq avoid_total_simps scored_simps Let_def
        split: option.splits prod.splits)
qed

lemma AvoidBadFutures_rollouts:
  "AvoidBadFutures K sc rw depths base (e, r) =
     (case avoid_rollouts K rw depths (e, r) of
        None \<Rightarrow> None
      | Some (ms, e', r') \<Rightarrow> Some (avoid_total (scored sc base ms) 1, e', r'))"
  by (simp add: AvoidBadFutures_def avoid_rollouts_def avoid_trials_mems_eq Let_def
      split: option.splits prod.splits)

lemma seek_trials_mems_eq:
  "seek_trials K sc rw depths base bs is (e, r, tot) =
     (case seek_trials_mems K rw depths bs is (e, r) of
        None \<Rightarrow> None
      | Some (e', r', ms) \<Rightarrow> Some (e', r', seek_total (scored sc base ms) tot))"
proof (induction "is" arbitrary: e r tot)
  case Nil
  show ?case by (simp add: seek_total_simps scored_simps)
next
  case (Cons i "is")
  show ?case
    by (simp add: Cons.IH seek_total_simps scored_simps Let_def
        split: option.splits prod.splits)
qed

lemma SeekGoodFutures_rollouts:
  "SeekGoodFutures K sc rw depths base (e, r) =
     (case seek_rollouts K rw depths (e, r) of
        None \<Rightarrow> None
      | Some (ms, e', r') \<Rightarrow> Some (seek_total (scored sc base ms) 1, e', r'))"
  by (simp add: SeekGoodFutures_def seek_rollouts_def seek_trials_mems_eq Let_def
      split: option.splits prod.splits)

text \<open>
  C3, as amended. In a candidate's evaluation both look-ahead scores take the memory
  \<open>M\<^sub>1\<close> snapshotted after the motif as their baseline (the code passes \<open>new_memory\<close> to
  \<open>AvoidBadFutures\<close> and to \<open>SeekGoodFutures\<close>): every memory \<open>m\<close> that a rollout of
  either reads is scored as \<open>sc M\<^sub>1 m\<close>, where \<open>M\<^sub>1 = GetMemory K e1\<close> is the memory after the
  motif; the memory \<open>M\<^sub>0\<close> of the start of the frame (\<open>current_memory\<close>) is the baseline of
  the immediate score \<open>sc M\<^sub>0 M\<^sub>1\<close> and of nothing else.
\<close>

theorem Greedy_scores_against_post_motif_memory:
  "Greedy_trial K sc rw pf current_state current_memory trial motif (e, r) =
     (case caching_steps K motif (if trial \<noteq> 0 then LoadUncompressed K current_state e else e) of
        None \<Rightarrow> None
      | Some e1 \<Rightarrow>
          (case avoid_rollouts K rw (avoid_depths pf) (e1, r) of
             None \<Rightarrow> None
           | Some (avoid_mems, e2, r2) \<Rightarrow>
               (case seek_rollouts K rw (seek_depths pf)
                       (LoadUncompressed K (SaveUncompressed K e1 []) e2, r2) of
                  None \<Rightarrow> None
                | Some (seek_mems, e3, r3) \<Rightarrow>
                    Some (sc current_memory (GetMemory K e1),
                          avoid_total (map (\<lambda>(t, m). (t, sc (GetMemory K e1) m)) avoid_mems) 1 +
                          seek_total (map (\<lambda>(i, m). (i, sc (GetMemory K e1) m)) seek_mems) 1,
                          e3, r3))))"
  by (simp add: Greedy_trial_def AvoidBadFutures_rollouts SeekGoodFutures_rollouts Let_def
      scored_def split: option.splits prod.splits)

lemma steady_obs:
  assumes "steady e"
  shows "SaveUncompressed latch_core e [] = [1]" "GetMemory latch_core e = [1]"
    "steady (LoadUncompressed latch_core [1] e)"
  using assms
  by (auto simp: steady_def SaveUncompressed_def SaveState_def GetStateSize_def resize_def
      latch_core_def GetMemory_def GetRAM_def LoadUncompressed_def LoadState_def
      split: option.splits)

lemma steady_CachingStep:
  assumes "steady e"
  shows "\<exists>e'. CachingStep latch_core 0 e = Some e' \<and> steady e' \<and>
           GetMemory latch_core e' = [1]"
proof -
  from assms obtain c v where c: "g_cache e = Some c" "map_of (table c) (0, [1]) = Some v"
    "snd v = [1]"
    by (auto simp: steady_def split: option.splits)
  let ?c' = "c\<lparr>hits := hits c + 1, table := restamp (0, [1]) (next_seq c) (table c),
               next_seq := next_seq c + 1\<rparr>"
  let ?e' = "LoadUncompressed latch_core [1] (e\<lparr>g_cache := Some ?c'\<rparr>)"
  have cs: "CachingStep latch_core 0 e = Some ?e'"
    using c steady_obs(1)[OF assms] by (simp add: CachingStep_def GetKnown_def Let_def)
  have "steady (e\<lparr>g_cache := Some ?c'\<rparr>)"
    using assms c by (simp add: steady_def restamp_map_of)
  from steady_obs(3)[OF this] steady_obs(2)[OF this] cs show ?thesis
    using steady_obs(2) by blast
qed

lemma avoid_trial_steady:
  assumes "steady e" "i \<noteq> 0 \<or> d \<noteq> 0"
  shows "\<exists>e'. avoid_trial latch_core sc demo_rw base i n d (e, r, tot) =
                Some (e', r + n, if n = 0 then tot else min tot (sc base [1])) \<and> steady e'"
  using assms
proof (induction n arbitrary: e r tot d)
  case 0
  then show ?case by simp
next
  case (Suc n)
  from steady_CachingStep[OF Suc.prems(1)] obtain e1 where
    e1: "CachingStep latch_core 0 e = Some e1" "steady e1" "GetMemory latch_core e1 = [1]"
    by blast
  have m: "avoid_motif latch_core sc base i d 0 [0] (e, tot) = Some (e1, min tot (sc base [1]))"
    using e1 Suc.prems(2) by auto
  have step: "avoid_trial latch_core sc demo_rw base i (Suc n) d (e, r, tot) =
              avoid_trial latch_core sc demo_rw base i n (d + 1) (e1, r + 1, min tot (sc base [1]))"
    by (simp add: demo_rw_def m del: avoid_motif.simps)
  from Suc.IH[OF e1(2), of "d + 1" "r + 1" "min tot (sc base [1])"] obtain e' where
    e': "avoid_trial latch_core sc demo_rw base i n (d + 1) (e1, r + 1, min tot (sc base [1])) =
       Some (e', r + 1 + n, if n = 0 then min tot (sc base [1])
                            else min (min tot (sc base [1])) (sc base [1]))"
    "steady e'" by auto
  have "(if n = 0 then min tot (sc base [1]) else min (min tot (sc base [1])) (sc base [1])) =
        min tot (sc base [1])" by simp
  with e' step show ?case by (simp del: avoid_trial.simps)
qed

lemma seek_trial_steady:
  assumes "steady e"
  shows "\<exists>e'. seek_trial latch_core demo_rw n (e, r) = Some (e', r + n) \<and> steady e'"
  using assms
proof (induction n arbitrary: e r)
  case 0
  then show ?case by simp
next
  case (Suc n)
  from steady_CachingStep[OF Suc.prems(1)] obtain e1 where
    e1: "CachingStep latch_core 0 e = Some e1" "steady e1"
    by blast
  from Suc.IH[OF e1(2), of "r + 1"] e1(1) show ?case
    by (auto simp: demo_rw_def)
qed

lemma demo_frame_eq:
  "demo_frame = \<lparr>g_wrapper = Some \<lparr>core = 0, rom_loaded = True, input_state = [0, 0]\<rparr>,
     g_initialized = True, g_frame_rgba = [],
     g_cache = Some \<lparr>table = [], limit = 100000, count = 0, next_seq = 0, slop = 10000,
                       hits = 0, misses = 0\<rparr>\<rparr>"
  "demo_pf = \<lparr>motifvec = [[0]], solution = [], movie = [], recent_futures = [],
            avoid_depths = [20, 75], seek_depths = [30, 30, 50],
            motif_scores = [], motif_uses = 0\<rparr>"
  by (simp_all add: demo_frame_def demo_pf_def PlayFun_new_def loaded_emu_eq ResetCache_def
      Resize_def StateCache_new_def)

lemma motif_step: "caching_steps latch_core [0] demo_frame = Some after_motif"
  unfolding demo_frame_eq after_motif_def by code_simp

lemma first_step: "CachingStep latch_core 0 after_motif = Some after_first"
  unfolding after_motif_def after_first_def by code_simp

lemma after_motif_obs:
  "GetMemory latch_core after_motif = [1]" "SaveUncompressed latch_core after_motif [] = [1]"
  "GetMemory latch_core demo_frame = [0]" "SaveUncompressed latch_core demo_frame [] = [0]"
  unfolding after_motif_def demo_frame_eq by code_simp+

lemma steady_after_first: "steady after_first"
  by (simp add: steady_def after_first_def)

lemma avoid_first_trial:
  "\<exists>e'. avoid_trial latch_core sc demo_rw base 0 (Suc n) 0 (after_motif, r, tot) =
          Some (e', r + Suc n, sc base [1]) \<and> steady e'"
proof -
  have g: "GetMemory latch_core after_first = [1]"
    using steady_obs(2)[OF steady_after_first] .
  have m: "avoid_motif latch_core sc base 0 0 0 [0] (after_motif, tot) =
           Some (after_first, sc base [1])"
    by (simp add: first_step g)
  have step: "avoid_trial latch_core sc demo_rw base 0 (Suc n) 0 (after_motif, r, tot) =
              avoid_trial latch_core sc demo_rw base 0 n (0 + 1) (after_first, r + 1, sc base [1])"
    by (simp add: demo_rw_def m del: avoid_motif.simps)
  from avoid_trial_steady[OF steady_after_first, of 0 "0 + 1" sc base n "r + 1" "sc base [1]"]
  obtain e' where
    "avoid_trial latch_core sc demo_rw base 0 n (0 + 1) (after_first, r + 1, sc base [1]) =
       Some (e', r + 1 + n, if n = 0 then sc base [1] else min (sc base [1]) (sc base [1]))"
    "steady e'"
    by auto
  with step show ?thesis by (simp del: avoid_trial.simps)
qed

lemma avoid_trials_latch:
  assumes d0: "depths ! 0 = Suc n"
  shows "\<exists>e'. avoid_trials latch_core sc demo_rw depths base [1] [0, Suc 0] (after_motif, r, 1) =
          Some (e', r + depths ! 0 + depths ! Suc 0, sc base [1]) \<and> steady e'"
proof -
  from avoid_first_trial[of sc base n r 1] d0 obtain e1 where
    t0: "avoid_trial latch_core sc demo_rw base 0 (depths ! 0) 0 (after_motif, r, 1) =
           Some (e1, r + depths ! 0, sc base [1])" and s1: "steady e1"
    by (auto simp del: avoid_trial.simps)
  have s1': "steady (LoadUncompressed latch_core [1] e1)" using steady_obs(3)[OF s1] .
  from avoid_trial_steady[OF s1', of "Suc 0" 0 sc base "depths ! Suc 0" "r + depths ! 0" "sc base [1]"]
  obtain e2 where
    t1: "avoid_trial latch_core sc demo_rw base (Suc 0) (depths ! Suc 0) 0
           (LoadUncompressed latch_core [1] e1, r + depths ! 0, sc base [1]) =
           Some (e2, r + depths ! 0 + depths ! Suc 0, sc base [1])" and s2: "steady e2"
    by (auto simp del: avoid_trial.simps)
  have "avoid_trials latch_core sc demo_rw depths base [1] [0, Suc 0] (after_motif, r, 1) =
          Some (e2, r + depths ! 0 + depths ! Suc 0, sc base [1])"
    by (simp add: t0 t1 del: avoid_trial.simps)
  with s2 show ?thesis by blast
qed

lemma AvoidBadFutures_latch:
  "\<exists>e'. AvoidBadFutures latch_core sc demo_rw [20, 75] base (after_motif, r) =
          Some (sc base [1], e', r + 95) \<and> steady e'"
proof -
  have u: "[0..<2] = [0, Suc 0]" by (simp add: upt_rec)
  have d: "[20, 75 :: nat] ! 0 = Suc 19" by simp
  from avoid_trials_latch[OF d, of sc base r] obtain e' where
    "avoid_trials latch_core sc demo_rw [20, 75] base [1] [0, Suc 0] (after_motif, r, 1) =
       Some (e', r + 95, sc base [1])" "steady e'"
    by (auto simp del: avoid_trials.simps)
  then show ?thesis
    by (auto simp: AvoidBadFutures_def after_motif_obs u simp del: avoid_trials.simps)
qed

lemma seek_trials_latch:
  assumes "steady e"
  shows "\<exists>e'. seek_trials latch_core sc demo_rw depths base [1] [0, Suc 0, 2] (e, r, 1) =
          Some (e', r + depths ! 0 + depths ! Suc 0 + depths ! 2, sc base [1]) \<and> steady e'"
proof -
  from seek_trial_steady[OF assms, of "depths ! 0" r] obtain e1 where
    t0: "seek_trial latch_core demo_rw (depths ! 0) (e, r) = Some (e1, r + depths ! 0)"
    and s1: "steady e1"
    by blast
  have s1': "steady (LoadUncompressed latch_core [1] e1)" using steady_obs(3)[OF s1] .
  from seek_trial_steady[OF s1', of "depths ! Suc 0" "r + depths ! 0"] obtain e2 where
    t1: "seek_trial latch_core demo_rw (depths ! Suc 0)
           (LoadUncompressed latch_core [1] e1, r + depths ! 0) =
           Some (e2, r + depths ! 0 + depths ! Suc 0)" and s2: "steady e2"
    by blast
  have s2': "steady (LoadUncompressed latch_core [1] e2)" using steady_obs(3)[OF s2] .
  from seek_trial_steady[OF s2', of "depths ! 2" "r + depths ! 0 + depths ! Suc 0"] obtain e3 where
    t2: "seek_trial latch_core demo_rw (depths ! 2)
           (LoadUncompressed latch_core [1] e2, r + depths ! 0 + depths ! Suc 0) =
           Some (e3, r + depths ! 0 + depths ! Suc 0 + depths ! 2)" and s3: "steady e3"
    by blast
  have "seek_trials latch_core sc demo_rw depths base [1] [0, Suc 0, 2] (e, r, 1) =
          Some (e3, r + depths ! 0 + depths ! Suc 0 + depths ! 2, sc base [1])"
    by (simp add: t0 t1 t2 steady_obs(2)[OF s1] steady_obs(2)[OF s2] steady_obs(2)[OF s3]
        Let_def del: seek_trial.simps)
  with s3 show ?thesis by blast
qed

lemma SeekGoodFutures_latch:
  assumes "steady e"
  shows "\<exists>e'. SeekGoodFutures latch_core sc demo_rw [30, 30, 50] base (e, r) =
          Some (sc base [1], e', r + 110) \<and> steady e'"
proof -
  have u: "[0..<3] = [0, Suc 0, 2]" by (simp add: upt_rec)
  from seek_trials_latch[OF assms, of sc "[30, 30, 50]" base r] obtain e' where
    "seek_trials latch_core sc demo_rw [30, 30, 50] base [1] [0, Suc 0, 2] (e, r, 1) =
       Some (e', r + 110, sc base [1])" "steady e'"
    by (auto simp del: seek_trials.simps)
  then show ?thesis
    by (auto simp: SeekGoodFutures_def steady_obs(1)[OF assms] u simp del: seek_trials.simps)
qed

lemma Greedy_trial_latch:
  "\<exists>e'. Greedy_trial latch_core sc demo_rw demo_pf cs cm 0 [0] (demo_frame, 0) =
          Some (sc cm [1], sc [1] [1] + sc [1] [1], e', 205)"
proof -
  from AvoidBadFutures_latch[of sc "[1]" 0] obtain e2 where
    a: "AvoidBadFutures latch_core sc demo_rw [20, 75] [1] (after_motif, 0) =
          Some (sc [1] [1], e2, 0 + 95)" and s2: "steady e2"
    by blast
  from SeekGoodFutures_latch[OF steady_obs(3)[OF s2], of sc "[1]" "0 + 95"] obtain e3 where
    s: "SeekGoodFutures latch_core sc demo_rw [30, 30, 50] [1]
          (LoadUncompressed latch_core [1] e2, 0 + 95) = Some (sc [1] [1], e3, 0 + 95 + 110)"
    by blast
  have "Greedy_trial latch_core sc demo_rw demo_pf cs cm 0 [0] (demo_frame, 0) =
          Some (sc cm [1], sc [1] [1] + sc [1] [1], e3, 205)"
    using a s
    by (simp add: Greedy_trial_def motif_step after_motif_obs demo_frame_eq(2) Let_def
        del: caching_steps.simps)
  then show ?thesis by blast
qed

lemma Greedy_trial_spec_latch:
  "\<exists>e'. Greedy_trial_spec latch_core sc demo_rw demo_pf cs cm 0 [0] (demo_frame, 0) =
          Some (sc cm [1], sc cm [1] + sc cm [1], e', 205)"
proof -
  from AvoidBadFutures_latch[of sc cm 0] obtain e2 where
    a: "AvoidBadFutures latch_core sc demo_rw [20, 75] cm (after_motif, 0) =
          Some (sc cm [1], e2, 0 + 95)" and s2: "steady e2"
    by blast
  from SeekGoodFutures_latch[OF steady_obs(3)[OF s2], of sc cm "0 + 95"] obtain e3 where
    s: "SeekGoodFutures latch_core sc demo_rw [30, 30, 50] cm
          (LoadUncompressed latch_core [1] e2, 0 + 95) = Some (sc cm [1], e3, 0 + 95 + 110)"
    by blast
  have "Greedy_trial_spec latch_core sc demo_rw demo_pf cs cm 0 [0] (demo_frame, 0) =
          Some (sc cm [1], sc cm [1] + sc cm [1], e3, 205)"
    using a s
    by (simp add: Greedy_trial_spec_def motif_step after_motif_obs demo_frame_eq(2) Let_def
        del: caching_steps.simps)
  then show ?thesis by blast
qed

text \<open>
  The claim as stated fails: on the latching machine, with the score that is \<open>0\<close> for
  equal memories and \<open>1\<close> otherwise, \<open>M\<^sub>0 = [0]\<close>, \<open>M\<^sub>1 = [1]\<close> and every rollout memory is
  \<open>[1]\<close>. The code's future score is \<open>0 + 0\<close> (baseline \<open>M\<^sub>1\<close>); with \<open>M\<^sub>0\<close> as the baseline,
  as the specification words it, it would be \<open>1 + 1\<close>.
\<close>

theorem Greedy_baseline_is_not_pre_motif_memory:
  "map_option (\<lambda>x. (fst x, fst (snd x)))
     (Greedy_trial latch_core demo_score demo_rw demo_pf
        (SaveUncompressed latch_core demo_frame []) (GetMemory latch_core demo_frame) 0 [0]
        (demo_frame, 0)) = Some (1, 0) \<and>
   map_option (\<lambda>x. (fst x, fst (snd x)))
     (Greedy_trial_spec latch_core demo_score demo_rw demo_pf
        (SaveUncompressed latch_core demo_frame []) (GetMemory latch_core demo_frame) 0 [0]
        (demo_frame, 0)) = Some (1, 2)"
proof -
  from Greedy_trial_latch[of demo_score "[0]" "[0]"] obtain e1 where
    "Greedy_trial latch_core demo_score demo_rw demo_pf [0] [0] 0 [0] (demo_frame, 0) =
       Some (demo_score [0] [1], demo_score [1] [1] + demo_score [1] [1], e1, 205)" by blast
  moreover
  from Greedy_trial_spec_latch[of demo_score "[0]" "[0]"] obtain e2 where
    "Greedy_trial_spec latch_core demo_score demo_rw demo_pf [0] [0] 0 [0] (demo_frame, 0) =
       Some (demo_score [0] [1], demo_score [0] [1] + demo_score [0] [1], e2, 205)" by blast
  ultimately show ?thesis
    by (simp add: after_motif_obs demo_score_def)
qed

lemma core_ok_ramp: "core_ok ramp_core"
  by (simp add: core_ok_def ser_def ramp_core_def GetRAM_def)

lemma ramp_frame_eq:
  "ramp_frame = \<lparr>g_wrapper = Some \<lparr>core = 0, rom_loaded = True, input_state = [0, 0]\<rparr>,
     g_initialized = True, g_frame_rgba = [],
     g_cache = Some \<lparr>table = [], limit = 100000, count = 0, next_seq = 0, slop = 10000,
                       hits = 0, misses = 0\<rparr>\<rparr>"
  "ramp_pf = \<lparr>motifvec = [[0]], solution = [], movie = [], recent_futures = [],
            avoid_depths = [20, 75], seek_depths = [30, 30, 50],
            motif_scores = [], motif_uses = 0\<rparr>"
  by (simp_all add: ramp_frame_def ramp_pf_def PlayFun_new_def loaded_emu_eq ResetCache_def
      Resize_def StateCache_new_def)

lemma ramp_frame_ok:
  "emu_ok ramp_core ramp_frame" "has_room 206 ramp_frame" "GetMemory ramp_core ramp_frame = [0]"
  by (simp_all add: ramp_frame_eq emu_ok_def has_room_def GetMemory_def GetRAM_def ramp_core_def)

lemma ramp_obs:
  assumes "emu_ok ramp_core e"
  shows "\<exists>c. GetMemory ramp_core e = [c] \<and> SaveUncompressed ramp_core e [] = [c] \<and>
           GetMemory ramp_core (Step ramp_core b e) = [if c = 0 then 1 else 2]"
proof -
  from assms obtain w where w: "g_wrapper e = Some w" "rom_loaded w"
    by (auto simp: emu_ok_def split: option.splits)
  have s: "ser ramp_core (core w) = Some [core w]" by (simp add: ser_def ramp_core_def)
  have m: "GetMemory ramp_core e = [core w]"
    using w by (simp add: GetMemory_def GetRAM_def ramp_core_def)
  have "GetMemory ramp_core (Step ramp_core b e) = [if core w = 0 then 1 else 2]"
    using Step_loaded(1)[OF w, of ramp_core b] w
    by (simp add: GetMemory_def GetRAM_def ramp_core_def)
  with m SaveUncompressed_loaded[OF w s] show ?thesis by simp
qed

lemma has_room_mono: "has_room (n + k) e \<Longrightarrow> has_room k e"
  by (auto simp: has_room_def split: option.splits)

lemma ramp_CachingStep:
  assumes eok: "emu_ok ramp_core e" and room: "has_room (Suc n) e"
  shows "\<exists>e'. CachingStep ramp_core b e = Some e' \<and> emu_ok ramp_core e' \<and> has_room n e' \<and>
           GetMemory ramp_core e' = [if GetMemory ramp_core e = [0] then 1 else 2]"
proof -
  from CachingStep_room[OF core_ok_ramp eok room, of b] obtain e' where
    e': "CachingStep ramp_core b e = Some e'" "has_room n e'" by blast
  from CachingStep_transparent[OF core_ok_ramp eok e'(1)]
  have t: "same_machine ramp_core e' (Step ramp_core b e)" "emu_ok ramp_core e'" by simp_all
  from ramp_obs[OF eok, of b] same_machine_obs(2)[OF core_ok_ramp t(1)]
  have "GetMemory ramp_core e' = [if GetMemory ramp_core e = [0] then 1 else 2]" by auto
  with e' t show ?thesis by blast
qed

lemma ramp_restore:
  assumes eok: "emu_ok ramp_core e"
  shows "emu_ok ramp_core (LoadUncompressed ramp_core [1] e)"
    "has_room n e \<Longrightarrow> has_room n (LoadUncompressed ramp_core [1] e)"
    "GetMemory ramp_core (LoadUncompressed ramp_core [1] e) = [1]"
proof -
  from assms obtain w where w: "g_wrapper e = Some w" "rom_loaded w"
    by (auto simp: emu_ok_def split: option.splits)
  note L = LoadUncompressed_loaded[OF w, of "[1]" ramp_core]
  show "emu_ok ramp_core (LoadUncompressed ramp_core [1] e)"
    using emu_ok_pads[OF eok w(1), of "LoadUncompressed ramp_core [1] e"] L w by simp
  show "has_room n e \<Longrightarrow> has_room n (LoadUncompressed ramp_core [1] e)"
    using L by (simp add: has_room_def)
  show "GetMemory ramp_core (LoadUncompressed ramp_core [1] e) = [1]"
    using L w by (simp add: GetMemory_def GetRAM_def ramp_core_def)
qed

lemma ramp_avoid_trial:
  assumes "emu_ok ramp_core e" "has_room (n + k) e" "GetMemory ramp_core e \<noteq> [0]"
  shows "\<exists>e'. avoid_trial_mems ramp_core demo_rw i n d (e, r) =
                Some (e', r + n, map (\<lambda>j. ((i, d + j, 0), [2])) [0..<n]) \<and>
              emu_ok ramp_core e' \<and> has_room k e' \<and> GetMemory ramp_core e' \<noteq> [0]"
  using assms
proof (induction n arbitrary: e r d)
  case 0
  then show ?case by simp
next
  case (Suc n)
  from Suc.prems(2) have room: "has_room (Suc (n + k)) e" by simp
  from ramp_CachingStep[OF Suc.prems(1) room, of 0] Suc.prems(3) obtain e1 where
    e1: "CachingStep ramp_core 0 e = Some e1" "emu_ok ramp_core e1" "has_room (n + k) e1"
    "GetMemory ramp_core e1 = [2]" by auto
  have ne: "GetMemory ramp_core e1 \<noteq> [0]" using e1(4) by simp
  from Suc.IH[OF e1(2,3) ne, where r = "r + 1" and d = "d + 1"] obtain e' where
    e': "avoid_trial_mems ramp_core demo_rw i n (d + 1) (e1, r + 1) =
           Some (e', r + 1 + n, map (\<lambda>j. ((i, d + 1 + j, 0), [2])) [0..<n])"
    "emu_ok ramp_core e'" "has_room k e'" "GetMemory ramp_core e' \<noteq> [0]" by blast
  have u: "map (\<lambda>j. ((i, d + j, 0 :: nat), [2 :: u8])) [0..<Suc n] =
           ((i, d, 0), [2]) # map (\<lambda>j. ((i, d + 1 + j, 0), [2])) [0..<n]"
    by (simp only: map_upt_Suc) simp
  have "avoid_trial_mems ramp_core demo_rw i (Suc n) d (e, r) =
          Some (e', r + Suc n, map (\<lambda>j. ((i, d + j, 0), [2])) [0..<Suc n])"
    unfolding u using e1(1,4) e'(1) by (simp add: demo_rw_def)
  with e'(2,3,4) show ?case by blast
qed

lemma ramp_seek_trial:
  assumes "emu_ok ramp_core e" "has_room (Suc n + k) e" "GetMemory ramp_core e \<noteq> [0]"
  shows "\<exists>e'. seek_trial ramp_core demo_rw (Suc n) (e, r) = Some (e', r + Suc n) \<and>
              emu_ok ramp_core e' \<and> has_room k e' \<and> GetMemory ramp_core e' = [2]"
  using assms
proof (induction n arbitrary: e r)
  case 0
  from 0(2) have room: "has_room (Suc k) e" by simp
  from ramp_CachingStep[OF 0(1) room, of 0] 0(3) show ?case
    by (auto simp: demo_rw_def)
next
  case (Suc n)
  from Suc.prems(2) have room: "has_room (Suc (Suc n + k)) e" by simp
  from ramp_CachingStep[OF Suc.prems(1) room, of 0] Suc.prems(3) obtain e1 where
    e1: "CachingStep ramp_core 0 e = Some e1" "emu_ok ramp_core e1" "has_room (Suc n + k) e1"
    "GetMemory ramp_core e1 = [2]" by auto
  have ne: "GetMemory ramp_core e1 \<noteq> [0]" using e1(4) by simp
  from Suc.IH[OF e1(2,3) ne, where r = "r + 1"] obtain e' where
    e': "seek_trial ramp_core demo_rw (Suc n) (e1, r + 1) = Some (e', r + 1 + Suc n)"
    "emu_ok ramp_core e'" "has_room k e'" "GetMemory ramp_core e' = [2]" by blast
  have "seek_trial ramp_core demo_rw (Suc (Suc n)) (e, r) = Some (e', r + Suc (Suc n))"
    using e1(1) e'(1) by (simp add: demo_rw_def del: seek_trial.simps(2)) (simp add: demo_rw_def)
  with e'(2,3,4) show ?case by blast
qed

lemma avoid_total_later:
  assumes "i \<noteq> 0 \<or> d \<noteq> 0"
  shows "avoid_total (map (\<lambda>j. ((i, d + j, 0), s)) [0..<n]) tot = (if n = 0 then tot else min tot s)"
  using assms
proof (induction n arbitrary: d tot)
  case 0
  show ?case by (simp add: avoid_total_simps)
next
  case (Suc n)
  have u: "map (\<lambda>j. ((i, d + j, 0 :: nat), s)) [0..<Suc n] =
           ((i, d, 0), s) # map (\<lambda>j. ((i, Suc d + j, 0), s)) [0..<n]"
    by (simp only: map_upt_Suc) simp
  have "i \<noteq> 0 \<or> Suc d \<noteq> 0" by simp
  from Suc.IH[OF this, of "min tot s"] Suc.prems show ?case
    unfolding u by (auto simp: avoid_total_simps)
qed

lemma avoid_total_first:
  "avoid_total (map (\<lambda>j. ((0, j, 0), s)) [0..<Suc n]) tot = s"
proof -
  have u: "map (\<lambda>j. ((0 :: nat, j, 0 :: nat), s)) [0..<Suc n] =
           ((0, 0, 0), s) # map (\<lambda>j. ((0, Suc 0 + j, 0), s)) [0..<n]"
    by (simp only: map_upt_Suc) simp
  have "(0 :: nat) \<noteq> 0 \<or> Suc 0 \<noteq> 0" by simp
  from avoid_total_later[OF this, of s n s] show ?thesis
    unfolding u by (simp add: avoid_total_simps)
qed

lemma ramp_avoid_rollouts:
  assumes eok: "emu_ok ramp_core e" and room: "has_room (95 + k) e"
    and mem: "GetMemory ramp_core e = [1]"
  shows "\<exists>e'. avoid_rollouts ramp_core demo_rw [20, 75] (e, r) =
                Some (map (\<lambda>d. ((0, d, 0), [2])) [0..<20] @ map (\<lambda>d. ((1, d, 0), [2])) [0..<75],
                      e', r + 95) \<and>
              emu_ok ramp_core e' \<and> has_room k e'"
proof -
  have s: "SaveUncompressed ramp_core e [] = [1]" using ramp_obs[OF eok, of 0] mem by auto
  have r0: "has_room (20 + (75 + k)) e" using room by (simp add: add.assoc)
  have ne: "GetMemory ramp_core e \<noteq> [0]" using mem by simp
  from ramp_avoid_trial[OF eok r0 ne, of 0 0 r] obtain ea where
    a: "avoid_trial_mems ramp_core demo_rw 0 20 0 (e, r) =
          Some (ea, r + 20, map (\<lambda>j. ((0, j, 0), [2])) [0..<20])"
    "emu_ok ramp_core ea" "has_room (75 + k) ea" by auto
  have ne': "GetMemory ramp_core (LoadUncompressed ramp_core [1] ea) \<noteq> [0]"
    using ramp_restore(3)[OF a(2)] by simp
  from ramp_avoid_trial[OF ramp_restore(1)[OF a(2)] ramp_restore(2)[OF a(2) a(3)] ne',
      of "Suc 0" 0 "r + 20"]
  obtain eb where
    b: "avoid_trial_mems ramp_core demo_rw (Suc 0) 75 0 (LoadUncompressed ramp_core [1] ea, r + 20) =
          Some (eb, r + 20 + 75, map (\<lambda>j. ((Suc 0, j, 0), [2])) [0..<75])"
    "emu_ok ramp_core eb" "has_room k eb" by auto
  have u: "[0..<2] = [0, Suc 0]" by (simp add: upt_rec)
  have "avoid_rollouts ramp_core demo_rw [20, 75] (e, r) =
          Some (map (\<lambda>d. ((0, d, 0), [2])) [0..<20] @ map (\<lambda>d. ((1, d, 0), [2])) [0..<75],
                eb, r + 95)"
    unfolding avoid_rollouts_def u using a(1) b(1) s
    by (simp del: avoid_trial_mems.simps upt_Suc)
  with b(2,3) show ?thesis by blast
qed

lemma ramp_seek_rollouts:
  assumes eok: "emu_ok ramp_core e" and room: "has_room (110 + k) e"
    and mem: "GetMemory ramp_core e = [1]"
  shows "\<exists>e'. seek_rollouts ramp_core demo_rw [30, 30, 50] (e, r) =
                Some ([(0, [2]), (1, [2]), (2, [2])], e', r + 110)"
proof -
  have s: "SaveUncompressed ramp_core e [] = [1]" using ramp_obs[OF eok, of 0] mem by auto
  have r0: "has_room (Suc 29 + (80 + k)) e" using room by (simp add: add.assoc)
  have ne: "GetMemory ramp_core e \<noteq> [0]" using mem by simp
  from ramp_seek_trial[OF eok r0 ne, of r] obtain ea where
    a: "seek_trial ramp_core demo_rw (Suc 29) (e, r) = Some (ea, r + Suc 29)"
    "emu_ok ramp_core ea" "has_room (80 + k) ea" "GetMemory ramp_core ea = [2]" by blast
  have ra: "has_room (Suc 29 + (50 + k)) (LoadUncompressed ramp_core [1] ea)"
    using ramp_restore(2)[OF a(2) a(3)] by (simp add: add.assoc)
  have nea: "GetMemory ramp_core (LoadUncompressed ramp_core [1] ea) \<noteq> [0]"
    using ramp_restore(3)[OF a(2)] by simp
  from ramp_seek_trial[OF ramp_restore(1)[OF a(2)] ra nea, of "r + Suc 29"] obtain eb where
    b: "seek_trial ramp_core demo_rw (Suc 29) (LoadUncompressed ramp_core [1] ea, r + Suc 29) =
          Some (eb, r + Suc 29 + Suc 29)"
    "emu_ok ramp_core eb" "has_room (50 + k) eb" "GetMemory ramp_core eb = [2]" by blast
  have rb: "has_room (Suc 49 + k) (LoadUncompressed ramp_core [1] eb)"
    using ramp_restore(2)[OF b(2) b(3)] by simp
  have neb: "GetMemory ramp_core (LoadUncompressed ramp_core [1] eb) \<noteq> [0]"
    using ramp_restore(3)[OF b(2)] by simp
  from ramp_seek_trial[OF ramp_restore(1)[OF b(2)] rb neb, of "r + Suc 29 + Suc 29"] obtain ec where
    c: "seek_trial ramp_core demo_rw (Suc 49)
          (LoadUncompressed ramp_core [1] eb, r + Suc 29 + Suc 29) =
          Some (ec, r + Suc 29 + Suc 29 + Suc 49)"
    "GetMemory ramp_core ec = [2]" by blast
  have u: "[0..<3] = [0, Suc 0, 2]" by (simp add: upt_rec)
  have n: "(30 :: nat) = Suc 29" "(50 :: nat) = Suc 49" by simp_all
  have "seek_rollouts ramp_core demo_rw [30, 30, 50] (e, r) =
          Some ([(0, [2]), (1, [2]), (2, [2])], ec, r + 110)"
    unfolding seek_rollouts_def u n using a(1,4) b(1,4) c s
    by (simp del: seek_trial.simps)
  then show ?thesis by blast
qed

lemma ramp_score_values:
  "ramp_score [0] [1] = 1" "ramp_score [1] [2] = 12" "ramp_score [0] [2] = 2"
  "ramp_score [1] [1] = 11"
  by (simp_all add: ramp_score_def)

text \<open>
  On the climbing machine the three memories differ: \<open>M\<^sub>0 = [0]\<close>, \<open>M\<^sub>1 = [1]\<close> and every
  rollout memory is \<open>[2]\<close>. The immediate score is \<open>ramp_score [0] [1] = 1\<close> and the future
  score is \<open>ramp_score [1] [2] + ramp_score [1] [2] = 24\<close>.
\<close>

theorem Greedy_scores_against_post_motif_memory_witness:
  "GetMemory ramp_core ramp_frame = [0] \<and>
   (\<exists>e1 e2 e3.
      caching_steps ramp_core [0] ramp_frame = Some e1 \<and> GetMemory ramp_core e1 = [1] \<and>
      avoid_rollouts ramp_core demo_rw (avoid_depths ramp_pf) (e1, 0) =
        Some (map (\<lambda>d. ((0, d, 0), [2])) [0..<20] @ map (\<lambda>d. ((1, d, 0), [2])) [0..<75],
              e2, 95) \<and>
      seek_rollouts ramp_core demo_rw (seek_depths ramp_pf)
          (LoadUncompressed ramp_core (SaveUncompressed ramp_core e1 []) e2, 95) =
        Some ([(0, [2]), (1, [2]), (2, [2])], e3, 205) \<and>
      Greedy_trial ramp_core ramp_score demo_rw ramp_pf
          (SaveUncompressed ramp_core ramp_frame []) (GetMemory ramp_core ramp_frame) 0 [0]
          (ramp_frame, 0) = Some (1, 24, e3, 205)) \<and>
   ramp_score [0] [1] = 1 \<and> ramp_score [1] [2] = 12 \<and> ramp_score [0] [2] = 2 \<and>
   ramp_score [1] [1] = 11"
proof -
  from ramp_CachingStep[OF ramp_frame_ok(1), of 205 0] ramp_frame_ok(2,3) obtain e1 where
    e1: "CachingStep ramp_core 0 ramp_frame = Some e1" "emu_ok ramp_core e1" "has_room 205 e1"
    "GetMemory ramp_core e1 = [1]" by auto
  have m: "caching_steps ramp_core [0] ramp_frame = Some e1" using e1(1) by simp
  have s1: "SaveUncompressed ramp_core e1 [] = [1]" using ramp_obs[OF e1(2), of 0] e1(4) by auto
  have r1: "has_room (95 + 110) e1" using e1(3) by simp
  from ramp_avoid_rollouts[OF e1(2) r1 e1(4), of 0] obtain e2 where
    e2: "avoid_rollouts ramp_core demo_rw [20, 75] (e1, 0) =
           Some (map (\<lambda>d. ((0, d, 0), [2])) [0..<20] @ map (\<lambda>d. ((1, d, 0), [2])) [0..<75],
                 e2, 95)"
    "emu_ok ramp_core e2" "has_room 110 e2" by auto
  have r2: "has_room (110 + 0) (LoadUncompressed ramp_core [1] e2)"
    using ramp_restore(2)[OF e2(2) e2(3)] by simp
  from ramp_seek_rollouts[OF ramp_restore(1)[OF e2(2)] r2 ramp_restore(3)[OF e2(2)], of 95]
  obtain e3 where
    e3: "seek_rollouts ramp_core demo_rw [30, 30, 50] (LoadUncompressed ramp_core [1] e2, 95) =
           Some ([(0, [2]), (1, [2]), (2, [2])], e3, 205)" by auto
  have a: "avoid_total (map (\<lambda>(t, m). (t, ramp_score [1] m))
              (map (\<lambda>d. ((0, d, 0), [2])) [0..<20] @ map (\<lambda>d. ((1, d, 0), [2])) [0..<75])) 1 = 12"
  proof -
    have n: "(20 :: nat) = Suc 19" by simp
    have o: "(1 :: nat) \<noteq> 0 \<or> (0 :: nat) \<noteq> 0" by simp
    show ?thesis
      using avoid_total_first[of "ramp_score [1] [2]" 19 1]
        avoid_total_later[OF o, of "ramp_score [1] [2]" 75 "ramp_score [1] [2]"]
      by (simp only: map_append map_map o_def prod.case avoid_total_simps(3) n)
         (simp add: ramp_score_values)
  qed
  have b: "seek_total (map (\<lambda>(i, m). (i, ramp_score [1] m)) [(0, [2]), (1, [2]), (2, [2])]) 1 = 12"
    by (simp add: seek_total_simps ramp_score_values)
  note T = Greedy_scores_against_post_motif_memory[of ramp_core ramp_score demo_rw ramp_pf
      "SaveUncompressed ramp_core ramp_frame []" "GetMemory ramp_core ramp_frame" 0 "[0]"
      ramp_frame 0]
  have g: "Greedy_trial ramp_core ramp_score demo_rw ramp_pf
          (SaveUncompressed ramp_core ramp_frame []) (GetMemory ramp_core ramp_frame) 0 [0]
          (ramp_frame, 0) = Some (1, 24, e3, 205)"
    using T m e1(4) s1 e2(1) e3 a b ramp_frame_ok(3)
    by (simp add: ramp_frame_eq(2) ramp_score_values del: caching_steps.simps upt_Suc)
  have d: "avoid_depths ramp_pf = [20, 75]" "seek_depths ramp_pf = [30, 30, 50]"
    by (simp_all add: ramp_frame_eq(2))
  from m e1(4) e2(1) e3 g s1 d ramp_frame_ok(3) ramp_score_values show ?thesis
    by (simp del: caching_steps.simps upt_Suc)
qed

section \<open>Properties of the canonical frame\<close>

lemma fold_upt_Suc: "fold f [0..<Suc n] r = f n (fold f [0..<n] r)"
  by simp

lemma fold_owner:
  fixes f :: "nat \<Rightarrow> 'a list \<Rightarrow> 'a list"
  assumes len: "\<And>j r. length (f j r) = length r"
    and upd: "\<And>j r i. j < B \<Longrightarrow> i < length r \<Longrightarrow> length r = N \<Longrightarrow>
               f j r ! i = (case u j i of Some v \<Rightarrow> v | None \<Rightarrow> r ! i)"
    and own: "\<And>j i. j < B \<Longrightarrow> i < N \<Longrightarrow> u j i \<noteq> None \<Longrightarrow> j = owner i"
    and n: "n \<le> B" and i: "i < N" and r: "length r = N"
  shows "length (fold f [0..<n] r) = N \<and>
         fold f [0..<n] r ! i =
           (if owner i < n then (case u (owner i) i of Some v \<Rightarrow> v | None \<Rightarrow> r ! i) else r ! i)"
  using n
proof (induction n)
  case 0
  then show ?case using r by simp
next
  case (Suc n)
  let ?R = "fold f [0..<n] r"
  from Suc have ih: "length ?R = N"
    "?R ! i = (if owner i < n then (case u (owner i) i of Some v \<Rightarrow> v | None \<Rightarrow> r ! i) else r ! i)"
    by simp_all
  have nB: "n < B" using Suc.prems by simp
  have l: "length (fold f [0..<Suc n] r) = N" using len ih(1) by simp
  have s: "fold f [0..<Suc n] r ! i = (case u n i of Some v \<Rightarrow> v | None \<Rightarrow> ?R ! i)"
    using upd[OF nB _ ih(1), of i] i ih(1) by simp
  show ?case
  proof (cases "u n i")
    case None
    have "owner i < Suc n \<longleftrightarrow> owner i < n \<or> owner i = n" by auto
    then show ?thesis using s l ih(2) None by auto
  next
    case (Some v)
    then have "n = owner i" using own[OF nB i] by simp
    then show ?thesis using s l Some by auto
  qed
qed


lemma pixel_index:
  fixes i y x :: nat
  assumes "x < 256"
  shows "(y * 256 * 4 + x * 4 \<le> i \<and> i < y * 256 * 4 + x * 4 + 4) \<longleftrightarrow>
         (i div 1024 = y \<and> (i mod 1024) div 4 = x)"
proof
  assume a: "y * 256 * 4 + x * 4 \<le> i \<and> i < y * 256 * 4 + x * 4 + 4"
  then have a1: "1024 * y + 4 * x \<le> i" and a2: "i < 1024 * y + 4 * x + 4" by simp_all
  have dy: "i div 1024 = y"
  proof (rule div_nat_eqI)
    show "1024 * y \<le> i" using a1 by simp
    show "i < 1024 * Suc y" using a2 assms by simp
  qed
  have "i mod 1024 = i - i div 1024 * 1024" by (simp add: minus_div_mult_eq_mod)
  then have m: "i mod 1024 = i - 1024 * y" using dy by simp
  have "(i mod 1024) div 4 = x"
  proof (rule div_nat_eqI)
    show "4 * x \<le> i mod 1024" using a1 m by simp
    show "i mod 1024 < 4 * Suc x" using a1 a2 m by simp
  qed
  with dy show "i div 1024 = y \<and> (i mod 1024) div 4 = x" by simp
next
  assume b: "i div 1024 = y \<and> (i mod 1024) div 4 = x"
  have 1: "i = 1024 * y + i mod 1024" using b mult_div_mod_eq[of 1024 i] by simp
  have 2: "i mod 1024 = 4 * x + (i mod 1024) mod 4"
    using b mult_div_mod_eq[of 4 "i mod 1024"] by simp
  have 3: "(i mod 1024) mod 4 < 4" by simp
  have "1024 * y + 4 * x \<le> i \<and> i < 1024 * y + 4 * x + 4"
    using 1 2 3 by linarith
  then show "y * 256 * 4 + x * 4 \<le> i \<and> i < y * 256 * 4 + x * 4 + 4" by simp
qed


lemma put_pixel_length [simp]: "length (put_pixel fb y x r) = length r"
  by (simp add: put_pixel_def Let_def)

lemma upd4_nth:
  assumes "d + 3 < length r"
  shows "r[d + 0 := a, d + 1 := b, d + 2 := c, d + 3 := e] ! i =
           (if i = d then a else if i = d + 1 then b else if i = d + 2 then c
            else if i = d + 3 then e else r ! i)"
  using assms by (auto simp: nth_list_update)

lemma put_pixel_alt:
  "put_pixel fb y x r =
     (if src_offset fb y x + 3 < length (data fb)
      then r[y * 256 * 4 + x * 4 + 0 := converted fb y x ! 0,
             y * 256 * 4 + x * 4 + 1 := converted fb y x ! 1,
             y * 256 * 4 + x * 4 + 2 := converted fb y x ! 2,
             y * 256 * 4 + x * 4 + 3 := converted fb y x ! 3]
      else r)"
  by (simp add: put_pixel_def src_offset_def converted_def Let_def)

lemma mod4_offset: "(y * 256 * 4 + x * 4 + k) mod 4 = (k :: nat) mod 4"
proof -
  have "y * 256 * 4 + x * 4 + k = k + 4 * (y * 256 + x)" by simp
  then show ?thesis by (metis mod_mult_self2)
qed

lemma put_pixel_nth:
  assumes y: "y < 256" and x: "x < 256" and r: "length r = 262144" and i: "i < 262144"
  shows "put_pixel fb y x r ! i =
           (case (if i div 1024 = y \<and> (i mod 1024) div 4 = x \<and>
                     src_offset fb y x + 3 < length (data fb)
                  then Some (converted fb y x ! (i mod 4)) else None) of
              Some v \<Rightarrow> v | None \<Rightarrow> r ! i)"
proof (cases "src_offset fb y x + 3 < length (data fb)")
  case False
  then show ?thesis by (simp add: put_pixel_alt)
next
  case True
  define d where "d = y * 256 * 4 + x * 4"
  have "d \<le> 255 * 1024 + 255 * 4" using y x unfolding d_def by linarith
  then have d3: "d + 3 < length r" using r by simp
  have pp: "put_pixel fb y x r ! i =
        (if i = d then converted fb y x ! 0 else if i = d + 1 then converted fb y x ! 1
         else if i = d + 2 then converted fb y x ! 2
         else if i = d + 3 then converted fb y x ! 3 else r ! i)"
    using True upd4_nth[OF d3] by (simp add: put_pixel_alt d_def)
  have px: "(d \<le> i \<and> i < d + 4) \<longleftrightarrow> (i div 1024 = y \<and> (i mod 1024) div 4 = x)"
    using pixel_index[OF x, of y i] by (simp add: d_def)
  show ?thesis
  proof (cases "i div 1024 = y \<and> (i mod 1024) div 4 = x")
    case in_px: True
    with px have "d \<le> i" "i < d + 4" by simp_all
    then consider "i = d" | "i = d + 1" | "i = d + 2" | "i = d + 3" by linarith
    then show ?thesis
    proof cases
      case 1
      then have "i mod 4 = 0" using mod4_offset[of y x 0] by (simp add: d_def)
      with 1 True in_px pp show ?thesis by simp
    next
      case 2
      then have "i mod 4 = 1" using mod4_offset[of y x 1] by (simp add: d_def)
      with 2 True in_px pp show ?thesis by simp
    next
      case 3
      then have "i mod 4 = 2" using mod4_offset[of y x 2] by (simp add: d_def)
      with 3 True in_px pp show ?thesis by simp
    next
      case 4
      then have "i mod 4 = 3" using mod4_offset[of y x 3] by (simp add: d_def)
      with 4 True in_px pp show ?thesis by simp
    qed
  next
    case out: False
    with px have "i < d \<or> d + 4 \<le> i" by auto
    then have "i \<noteq> d" "i \<noteq> d + 1" "i \<noteq> d + 2" "i \<noteq> d + 3" by auto
    with pp have "put_pixel fb y x r ! i = r ! i" by simp
    with out show ?thesis by auto
  qed
qed


lemma row_nth:
  assumes y: "y < 256" and w: "W \<le> 256" and r: "length r = 262144" and i: "i < 262144"
  shows "length (fold (\<lambda>x. put_pixel fb y x) [0..<W] r) = 262144 \<and>
         fold (\<lambda>x. put_pixel fb y x) [0..<W] r ! i =
           (case (if i div 1024 = y \<and> (i mod 1024) div 4 < W \<and>
                     src_offset fb y ((i mod 1024) div 4) + 3 < length (data fb)
                  then Some (converted fb y ((i mod 1024) div 4) ! (i mod 4)) else None) of
              Some v \<Rightarrow> v | None \<Rightarrow> r ! i)"
proof -
  let ?u = "\<lambda>x i. if i div 1024 = y \<and> (i mod 1024) div 4 = x \<and>
                     src_offset fb y x + 3 < length (data fb)
                  then Some (converted fb y x ! (i mod 4)) else None"
  have "length (fold (\<lambda>x. put_pixel fb y x) [0..<W] r) = 262144 \<and>
        fold (\<lambda>x. put_pixel fb y x) [0..<W] r ! i =
          (if (i mod 1024) div 4 < W
           then (case ?u ((i mod 1024) div 4) i of Some v \<Rightarrow> v | None \<Rightarrow> r ! i) else r ! i)"
  proof (rule fold_owner[where B = 256 and N = 262144 and u = ?u])
    show "\<And>j r. length (put_pixel fb y j r) = length r" by simp
    show "\<And>j r i. j < 256 \<Longrightarrow> i < length r \<Longrightarrow> length r = 262144 \<Longrightarrow>
            put_pixel fb y j r ! i = (case ?u j i of Some v \<Rightarrow> v | None \<Rightarrow> r ! i)"
      using put_pixel_nth[OF y] by simp
    show "\<And>j i. j < 256 \<Longrightarrow> i < 262144 \<Longrightarrow> ?u j i \<noteq> None \<Longrightarrow> j = (i mod 1024) div 4"
      by (simp split: if_splits)
    show "W \<le> 256" by (rule w)
    show "i < 262144" by (rule i)
    show "length r = 262144" by (rule r)
  qed
  then show ?thesis by auto
qed

lemma length_resize [simp]: "length (resize xs n v) = n"
  by (simp add: resize_def)

lemma fold_put_pixel_length [simp]:
  "length (fold (\<lambda>x. put_pixel fb y x) xs r) = length r"
  by (induction xs arbitrary: r) simp_all

lemma video_callback_nth:
  assumes i: "i < 262144"
  shows "length (video_callback fb rgba) = 262144"
    and "video_callback fb rgba ! i = canonical_byte fb (resize rgba 262144 0) i"
proof -
  let ?W = "min (unat (width fb)) 256"
  let ?H = "min (unat (height fb)) 256"
  let ?R = "resize rgba 262144 0"
  let ?f = "\<lambda>y. fold (\<lambda>x. put_pixel fb y x) [0..<?W]"
  let ?u = "\<lambda>y i. if i div 1024 = y \<and> (i mod 1024) div 4 < ?W \<and>
                     src_offset fb y ((i mod 1024) div 4) + 3 < length (data fb)
                  then Some (converted fb y ((i mod 1024) div 4) ! (i mod 4)) else None"
  have vc: "video_callback fb rgba = fold ?f [0..<?H] ?R"
    by (simp add: video_callback_def)
  have "length (fold ?f [0..<?H] ?R) = 262144 \<and>
        fold ?f [0..<?H] ?R ! i =
          (if i div 1024 < ?H
           then (case ?u (i div 1024) i of Some v \<Rightarrow> v | None \<Rightarrow> ?R ! i) else ?R ! i)"
  proof (rule fold_owner[where B = 256 and N = 262144 and u = ?u])
    show "\<And>j r. length (?f j r) = length r" by simp
    show "\<And>j r i. j < 256 \<Longrightarrow> i < length r \<Longrightarrow> length r = 262144 \<Longrightarrow>
            ?f j r ! i = (case ?u j i of Some v \<Rightarrow> v | None \<Rightarrow> r ! i)"
      using row_nth[where W = ?W and fb = fb] by simp
    show "\<And>j i. j < 256 \<Longrightarrow> i < 262144 \<Longrightarrow> ?u j i \<noteq> None \<Longrightarrow> j = i div 1024"
      by (simp split: if_splits)
    show "?H \<le> 256" by simp
    show "i < 262144" by (rule i)
    show "length ?R = 262144" by simp
  qed
  then show "length (video_callback fb rgba) = 262144"
    and "video_callback fb rgba ! i = canonical_byte fb (resize rgba 262144 0) i"
    unfolding vc by (auto simp: canonical_byte_def Let_def)
qed

lemma video_callback_length [simp]: "length (video_callback fb rgba) = 262144"
  using video_callback_nth(1)[of 0] by simp

lemma resize_nth:
  assumes "i < n"
  shows "resize xs n v ! i = (if i < length xs then xs ! i else v)"
  using assms by (auto simp: resize_def nth_append)

lemma outside_window:
  assumes i: "i < 262144"
    and out: "unat (height fb) \<le> i div 1024 \<or> unat (width fb) \<le> (i mod 1024) div 4"
  shows "video_callback fb rgba ! i = (if i < length rgba then rgba ! i else 0)"
proof -
  have "canonical_byte fb (resize rgba 262144 0) i = resize rgba 262144 0 ! i"
    using out by (auto simp: canonical_byte_def Let_def)
  then show ?thesis
    using video_callback_nth(2)[OF i, of fb rgba] resize_nth[OF i, of rgba 0] by simp
qed

lemma refresh_length:
  assumes "rgba = [] \<or> length rgba = 262144"
  shows "fold (VideoRefreshCallback video_callback) frames rgba = [] \<or>
         length (fold (VideoRefreshCallback video_callback) frames rgba) = 262144"
  using assms
proof (induction frames arbitrary: rgba)
  case Nil
  then show ?case by simp
next
  case (Cons fr frames)
  have "VideoRefreshCallback video_callback fr rgba = [] \<or>
        length (VideoRefreshCallback video_callback fr rgba) = 262144"
    using Cons.prems by (simp add: VideoRefreshCallback_def split: option.splits)
  from Cons.IH[OF this] show ?case by simp
qed

lemma refresh_with_data:
  assumes "\<exists>fr\<in>set frames. frame_data fr \<noteq> None"
  shows "length (fold (VideoRefreshCallback video_callback) frames rgba) = 262144"
  using assms
proof (induction frames arbitrary: rgba rule: rev_induct)
  case Nil
  then show ?case by simp
next
  case (snoc fr frames)
  show ?case
  proof (cases "frame_data fr")
    case None
    with snoc.prems have "\<exists>fr\<in>set frames. frame_data fr \<noteq> None" by auto
    from snoc.IH[OF this] None show ?thesis by (simp add: VideoRefreshCallback_def)
  next
    case (Some mem)
    then show ?thesis by (simp add: VideoRefreshCallback_def)
  qed
qed

lemma Step_frame:
  assumes "g_wrapper e = Some w" "rom_loaded w"
  shows "GetImage (Step K b e) =
           fold (VideoRefreshCallback video_callback)
             (snd (fn_run K ((input_state w)[0 := b]) (core w))) (g_frame_rgba e)"
  using assms by (simp add: GetImage_def Step_def Run_def SetInput_def split: prod.splits)

text \<open>
  C8, as the code has it. \<^verbatim>\<open>GetImage\<close> copies the frame buffer as the last video
  callback left it. The buffer is empty at start-up and after \<^verbatim>\<open>Shutdown\<close>. A callback
  leaves it exactly \<open>256 * 256 * 4 = 262144\<close> bytes long, and a byte at a row at or beyond
  the reported height, or at a column at or beyond the reported width, that was zero or
  absent before the callback is zero after it. A step keeps the length at \<open>0\<close> or
  \<open>262144\<close>, and makes it \<open>262144\<close> as soon as the core presents one frame with data.
\<close>

theorem GetImage_canonical_frame:
  "GetImage (emu_start :: 'c emu) = [] \<and> GetImage (Shutdown e0) = [] \<and>
   length (video_callback fb rgba) = 262144 \<and>
   (\<forall>i<262144. (unat (height fb) \<le> i div 1024 \<or> unat (width fb) \<le> (i mod 1024) div 4) \<and>
        (i < length rgba \<longrightarrow> rgba ! i = 0) \<longrightarrow> video_callback fb rgba ! i = 0) \<and>
   (GetImage e = [] \<or> length (GetImage e) = 262144 \<longrightarrow>
      GetImage (Step K b e) = [] \<or> length (GetImage (Step K b e)) = 262144) \<and>
   (\<forall>w. g_wrapper e = Some w \<and> rom_loaded w \<and>
        (\<exists>fr\<in>set (snd (fn_run K ((input_state w)[0 := b]) (core w))). frame_data fr \<noteq> None) \<longrightarrow>
        length (GetImage (Step K b e)) = 262144)"
proof (intro conjI allI impI)
  show "GetImage (emu_start :: 'c emu) = []" by (simp add: GetImage_def emu_start_def)
  show "GetImage (Shutdown e0) = []" by (simp add: GetImage_def Shutdown_def)
  show "length (video_callback fb rgba) = 262144" by simp
next
  fix i :: nat
  assume i: "i < 262144"
    and h: "(unat (height fb) \<le> i div 1024 \<or> unat (width fb) \<le> (i mod 1024) div 4) \<and>
        (i < length rgba \<longrightarrow> rgba ! i = 0)"
  then show "video_callback fb rgba ! i = 0"
    using outside_window[OF i, of fb rgba] by auto
next
  assume a: "GetImage e = [] \<or> length (GetImage e) = 262144"
  show "GetImage (Step K b e) = [] \<or> length (GetImage (Step K b e)) = 262144"
  proof (cases "g_wrapper e")
    case None
    then show ?thesis using a by (simp add: Step_def)
  next
    case (Some w)
    show ?thesis
    proof (cases "rom_loaded w")
      case True
      from refresh_length[of "g_frame_rgba e"] a Step_frame[OF Some True, of K b]
      show ?thesis by (simp add: GetImage_def)
    next
      case False
      then show ?thesis using a Some
        by (simp add: Step_def Run_def SetInput_def GetImage_def)
    qed
  qed
next
  fix w
  assume "g_wrapper e = Some w \<and> rom_loaded w \<and>
        (\<exists>fr\<in>set (snd (fn_run K ((input_state w)[0 := b]) (core w))). frame_data fr \<noteq> None)"
  then show "length (GetImage (Step K b e)) = 262144"
    using Step_frame[of e w K b] refresh_with_data by auto
qed

lemma shrink_steps:
  "GetImage (Step shrink_core 0 loaded_emu) = video_callback big_frame []"
  "GetImage (Step shrink_core 0 (Step shrink_core 0 loaded_emu)) =
     video_callback small_frame (video_callback big_frame [])"
  by (simp_all add: GetImage_def Step_def Run_def SetInput_def loaded_emu_eq shrink_core_def
      VideoRefreshCallback_def big_frame_def small_frame_def map_replicate_const)

lemma big_frame_alpha: "video_callback big_frame [] ! 1031 = 0xFF"
proof -
  have "canonical_byte big_frame (resize [] 262144 0) 1031 = 0xFF"
    by (simp add: canonical_byte_def big_frame_def src_offset_def converted_def Let_def)
  then show ?thesis using video_callback_nth(2)[of 1031 big_frame "[]"] by simp
qed

text \<open>
  The buffer read before any callback is empty, also with a game loaded. And a frame
  smaller than the one before it leaves the earlier pixels where they are: after a 2 by 2
  frame and then a 1 by 1 frame, byte \<open>1031\<close> (row 1, column 1, alpha) is still \<open>0xFF\<close>.
\<close>

theorem GetImage_empty_or_stale:
  "GetImage (emu_start :: u8 emu) = [] \<and> GetImage loaded_emu = [] \<and>
   map frame_height (snd (fn_run shrink_core [0, 0] 1)) = [1] \<and>
   map frame_width (snd (fn_run shrink_core [0, 0] 1)) = [1] \<and>
   (1031 :: nat) div 1024 = 1 \<and> ((1031 :: nat) mod 1024) div 4 = 1 \<and>
   GetImage (Step shrink_core 0 (Step shrink_core 0 loaded_emu)) ! 1031 = 0xFF"
proof -
  have "video_callback small_frame (video_callback big_frame []) ! 1031 =
        video_callback big_frame [] ! 1031"
    using outside_window[of 1031 small_frame "video_callback big_frame []"]
    by (simp add: small_frame_def)
  then have a: "GetImage (Step shrink_core 0 (Step shrink_core 0 loaded_emu)) ! 1031 = 0xFF"
    using big_frame_alpha by (simp only: shrink_steps)
  have b: "GetImage (emu_start :: u8 emu) = []" "GetImage loaded_emu = []"
    by (simp_all add: GetImage_def emu_start_def loaded_emu_eq)
  have c: "map frame_height (snd (fn_run shrink_core [0, 0] 1)) = [1]"
    "map frame_width (snd (fn_run shrink_core [0, 0] 1)) = [1]"
    by (simp_all add: shrink_core_def)
  have d: "(1031 :: nat) div 1024 = 1" "((1031 :: nat) mod 1024) div 4 = 1"
    by simp_all
  from a b c d show ?thesis by blast
qed

theorem GetImage_canonical_frame_witness:
  "(2048 :: nat) < 262144 \<and> unat (height big_frame) \<le> 2048 div 1024 \<and>
   video_callback big_frame [] ! 2048 = 0 \<and>
   length (video_callback big_frame []) = 262144 \<and>
   (GetImage loaded_emu = [] \<and> length (GetImage (Step shrink_core 0 loaded_emu)) = 262144)"
proof -
  have h: "g_wrapper loaded_emu = Some \<lparr>core = 0, rom_loaded = True, input_state = [0, 0]\<rparr> \<and>
        rom_loaded \<lparr>core = 0 :: u8, rom_loaded = True, input_state = [0, 0]\<rparr> \<and>
        (\<exists>fr\<in>set (snd (fn_run shrink_core
              ((input_state \<lparr>core = 0 :: u8, rom_loaded = True, input_state = [0, 0]\<rparr>)[0 := 0])
              (core \<lparr>core = 0 :: u8, rom_loaded = True, input_state = [0, 0]\<rparr>))).
            frame_data fr \<noteq> None)"
    by (simp add: loaded_emu_eq shrink_core_def)
  have g: "(unat (height big_frame) \<le> 2048 div 1024 \<or> unat (width big_frame) \<le> (2048 mod 1024) div 4) \<and>
        (2048 < length ([] :: bytes) \<longrightarrow> ([] :: bytes) ! 2048 = 0)"
    by (simp add: big_frame_def)
  note T = GetImage_canonical_frame[of undefined big_frame "[]" loaded_emu shrink_core 0]
  have e: "GetImage loaded_emu = []" by (simp add: GetImage_def loaded_emu_eq)
  have u: "unat (height big_frame) \<le> 2048 div 1024" by (simp add: big_frame_def)
  from T h g e u show ?thesis by auto
qed

end
